theory Spec2Isabelle
  imports Main "HOL-Library.Word" "HOL-Library.Sublist" "HOL-Library.Multiset"
begin

section \<open>Python values used by the scanner\<close>

text \<open>
  The module \<^verbatim>\<open>bt_scan_ll.py\<close> imports \<^verbatim>\<open>bluetooth\<close> and \<^verbatim>\<open>machine\<close>: it runs under
  MicroPython on the ESP32-C6, and it is modelled under the semantics of that interpreter.
  A \<^verbatim>\<open>bytes\<close> object is a list of bytes, an exception is a value, a slice with step 1 is
  clamped to the sequence, a slice of a \<^verbatim>\<open>bytes\<close> object with another step raises
  \<^verbatim>\<open>NotImplementedError\<close>, an index outside a sequence raises \<^verbatim>\<open>IndexError\<close>.  A
  \<^verbatim>\<open>str\<close> is represented by its UTF-8 encoding, one \<^typ>\<open>char\<close> for each byte, which is
  how the interpreter stores it.  The interpreter's \<^verbatim>\<open>sorted\<close> is not stable, and its
  \<^verbatim>\<open>dict\<close> does not yield its items in the order of insertion.
\<close>

type_synonym byte = "8 word"

datatype exn =
    IndexError
  | UnicodeError
  | StructError
  | NotImplementedError
  | OSError int
  | KeyboardInterrupt
  | CancelledError


text \<open>\<^verbatim>\<open>seq[i]\<close> for an index \<open>i \<ge> 0\<close>.\<close>

definition getitem :: "'a list \<Rightarrow> nat \<Rightarrow> exn + 'a" where
  "getitem xs i = (if i < length xs then Inr (xs ! i) else Inl IndexError)"

text \<open>\<^verbatim>\<open>seq[a:b]\<close> for bounds \<open>a, b \<ge> 0\<close>: both bounds are clamped to the length.\<close>

definition slice :: "'a list \<Rightarrow> nat \<Rightarrow> nat \<Rightarrow> 'a list" where
  "slice xs a b = take (b - a) (drop a xs)"

text \<open>\<^verbatim>\<open>range(a, b, step)\<close> for a positive step.\<close>

function py_range :: "nat \<Rightarrow> nat \<Rightarrow> nat \<Rightarrow> nat list" where
  "py_range a b step = (if a < b \<and> 0 < step then a # py_range (a + step) b step else [])"
  by pat_completeness auto
termination
  by (relation "measure (\<lambda>(a, b, step). b - a)") auto

declare py_range.simps [simp del]

text \<open>\<^verbatim>\<open>sep.join(parts)\<close>.\<close>

fun join :: "string \<Rightarrow> string list \<Rightarrow> string" where
  "join sep [] = []"
| "join sep [p] = p"
| "join sep (p # q # ps) = p @ sep @ join sep (q # ps)"

subsection \<open>UTF-8\<close>

text \<open>
  \<^verbatim>\<open>bytes.decode('utf-8')\<close> checks the structure of the sequence and nothing else.  The
  interpreter walks the bytes with a counter \<open>need\<close> of the continuation bytes
  \<open>0x80..0xBF\<close> that are still due: a byte below \<open>0x80\<close> stands alone, a byte
  \<open>0xC0..0xDF\<close>, \<open>0xE0..0xEF\<close> or \<open>0xF0..0xF7\<close> asks for one, two or three continuation
  bytes; a continuation byte in the place of a lead byte, a byte \<open>0xF8..0xFF\<close>, another
  byte in the place of a continuation byte and an end of the sequence while bytes are due
  are rejected with \<^verbatim>\<open>UnicodeError\<close>.  Overlong forms, surrogates and values above
  U+10FFFF pass the check; the text is the byte sequence as it is.
\<close>

definition cont :: "byte \<Rightarrow> bool" where
  "cont b = (0x80 \<le> b \<and> b \<le> 0xBF)"

fun utf8_check :: "nat \<Rightarrow> byte list \<Rightarrow> bool" where
  "utf8_check need [] = (need = 0)"
| "utf8_check need (c # cs) =
     (if 0 < need then cont c \<and> utf8_check (need - 1) cs
      else if 0xF8 \<le> c then False
      else if 0xF0 \<le> c then utf8_check 3 cs
      else if 0xE0 \<le> c then utf8_check 2 cs
      else if 0xC0 \<le> c then utf8_check 1 cs
      else if 0x80 \<le> c then False
      else utf8_check 0 cs)"

definition chr_of_byte :: "byte \<Rightarrow> char" where
  "chr_of_byte b = char_of (unat b)"

definition decode_utf8 :: "byte list \<Rightarrow> exn + string" where
  "decode_utf8 bs = (if utf8_check 0 bs then Inr (map chr_of_byte bs) else Inl UnicodeError)"

subsection \<open>Hexadecimal text\<close>

definition hex_digit_upper :: "nat \<Rightarrow> char" where
  "hex_digit_upper d = ''0123456789ABCDEF'' ! d"

definition hex_digit_lower :: "nat \<Rightarrow> char" where
  "hex_digit_lower d = ''0123456789abcdef'' ! d"

text \<open>The digits of \<^verbatim>\<open>format(n, 'X')\<close>, most significant first.\<close>

fun hex_upper :: "nat \<Rightarrow> string" where
  "hex_upper n = (if n < 16 then [hex_digit_upper n]
                  else hex_upper (n div 16) @ [hex_digit_upper (n mod 16)])"

declare hex_upper.simps [simp del]

text \<open>\<^verbatim>\<open>f"{n:04X}"\<close>: upper-case digits, padded with zeros on the left to four characters.\<close>

definition format_04X :: "nat \<Rightarrow> string" where
  "format_04X n = replicate (4 - length (hex_upper n)) CHR ''0'' @ hex_upper n"

text \<open>\<^verbatim>\<open>bytes.hex()\<close>: two lower-case digits for each byte.\<close>

definition hex :: "byte list \<Rightarrow> string" where
  "hex bs = concat (map (\<lambda>b. [hex_digit_lower (unat b div 16), hex_digit_lower (unat b mod 16)]) bs)"

text \<open>\<^verbatim>\<open>struct.unpack('<H', b)[0]\<close>: the buffer must hold exactly two bytes.\<close>

definition unpack_H :: "byte list \<Rightarrow> exn + nat" where
  "unpack_H bs = (case bs of [b0, b1] \<Rightarrow> Inr (unat b0 + 256 * unat b1) | _ \<Rightarrow> Inl StructError)"

section \<open>The advertising-data decoders\<close>

text \<open>
  Each decoder walks the records \<^verbatim>\<open>[length][type][value...]\<close> of the buffer with an index
  \<open>i\<close>.  The functions \<open>name_loop\<close>, \<open>services_loop\<close> and \<open>manufacturer_loop\<close> are the bodies
  of the \<^verbatim>\<open>try\<close> blocks, started at \<open>i = 0\<close>; \<open>Inl\<close> is a raised exception.
\<close>

function name_loop :: "byte list \<Rightarrow> nat \<Rightarrow> exn + string option" where
  "name_loop adv_data i =
     (if i < length adv_data then
        (let len = unat (adv_data ! i) in
         if len = 0 then Inr None
         else
           (case getitem adv_data (i + 1) of
              Inl e \<Rightarrow> Inl e
            | Inr ad_type \<Rightarrow>
                if ad_type = 0x09 then
                  (case decode_utf8 (slice adv_data (i + 2) (i + 1 + len)) of
                     Inl e \<Rightarrow> Inl e | Inr s \<Rightarrow> Inr (Some s))
                else if ad_type = 0x08 then
                  (case decode_utf8 (slice adv_data (i + 2) (i + 1 + len)) of
                     Inl e \<Rightarrow> Inl e | Inr s \<Rightarrow> Inr (Some s))
                else name_loop adv_data (i + 1 + len)))
      else Inr None)"
  by pat_completeness auto
termination
  by (relation "measure (\<lambda>(adv_data, i). length adv_data - i)") auto

declare name_loop.simps [simp del]

text \<open>\<^verbatim>\<open>except: pass\<close> and the final \<^verbatim>\<open>return None\<close>.\<close>

definition decode_name :: "byte list \<Rightarrow> string option" where
  "decode_name adv_data = (case name_loop adv_data 0 of Inl e \<Rightarrow> None | Inr r \<Rightarrow> r)"

text \<open>
  The two inner \<^verbatim>\<open>for\<close> loops of the service decoder.  They append to the list
  \<open>services\<close>, which is kept when an exception leaves the loop.
\<close>

fun uuid16_for :: "byte list \<Rightarrow> nat list \<Rightarrow> string list \<Rightarrow> exn option \<times> string list" where
  "uuid16_for adv_data [] services = (None, services)"
| "uuid16_for adv_data (j # js) services =
     (if j + 1 < length adv_data then
        (case unpack_H (slice adv_data j (j + 2)) of
           Inl e \<Rightarrow> (Some e, services)
         | Inr uuid \<Rightarrow> uuid16_for adv_data js (services @ [''0x'' @ format_04X uuid]))
      else uuid16_for adv_data js services)"

text \<open>
  \<^verbatim>\<open>b[::-1]\<close> for a \<^verbatim>\<open>bytes\<close> object \<open>b\<close>: the interpreter implements the slices of
  \<^verbatim>\<open>bytes\<close> with step 1 only and raises \<^verbatim>\<open>NotImplementedError\<close> for any other step,
  whatever the object holds.
\<close>

definition step_slice_reversed :: "byte list \<Rightarrow> exn + byte list" where
  "step_slice_reversed b = Inl NotImplementedError"

text \<open>
  The expression that builds \<^verbatim>\<open>uuid_str\<close>.  The elements of the list are evaluated from
  left to right; the first exception leaves the expression.
\<close>

definition uuid_str :: "byte list \<Rightarrow> exn + string" where
  "uuid_str uuid_bytes =
     (case step_slice_reversed (slice uuid_bytes 12 16) of Inl e \<Rightarrow> Inl e | Inr g1 \<Rightarrow>
      case step_slice_reversed (slice uuid_bytes 10 12) of Inl e \<Rightarrow> Inl e | Inr g2 \<Rightarrow>
      case step_slice_reversed (slice uuid_bytes 8 10) of Inl e \<Rightarrow> Inl e | Inr g3 \<Rightarrow>
      case step_slice_reversed (slice uuid_bytes 6 8) of Inl e \<Rightarrow> Inl e | Inr g4 \<Rightarrow>
      case step_slice_reversed (slice uuid_bytes 0 6) of Inl e \<Rightarrow> Inl e | Inr g5 \<Rightarrow>
        Inr (join ''-'' [hex g1, hex g2, hex g3, hex g4, hex g5]))"

fun uuid128_for :: "byte list \<Rightarrow> nat list \<Rightarrow> string list \<Rightarrow> exn option \<times> string list" where
  "uuid128_for adv_data [] services = (None, services)"
| "uuid128_for adv_data (j # js) services =
     (if j + 15 < length adv_data then
        (case uuid_str (slice adv_data j (j + 16)) of
           Inl e \<Rightarrow> (Some e, services)
         | Inr u \<Rightarrow> uuid128_for adv_data js (services @ [u]))
      else uuid128_for adv_data js services)"

function services_loop :: "byte list \<Rightarrow> nat \<Rightarrow> string list \<Rightarrow> exn option \<times> string list" where
  "services_loop adv_data i services =
     (if i < length adv_data then
        (let len = unat (adv_data ! i) in
         if len = 0 then (None, services)
         else
           (case getitem adv_data (i + 1) of
              Inl e \<Rightarrow> (Some e, services)
            | Inr ad_type \<Rightarrow>
                if ad_type = 0x02 \<or> ad_type = 0x03 then
                  (case uuid16_for adv_data (py_range (i + 2) (i + 1 + len) 2) services of
                     (Some e, services') \<Rightarrow> (Some e, services')
                   | (None, services') \<Rightarrow> services_loop adv_data (i + 1 + len) services')
                else if ad_type = 0x06 \<or> ad_type = 0x07 then
                  (case uuid128_for adv_data (py_range (i + 2) (i + 1 + len) 16) services of
                     (Some e, services') \<Rightarrow> (Some e, services')
                   | (None, services') \<Rightarrow> services_loop adv_data (i + 1 + len) services')
                else services_loop adv_data (i + 1 + len) services))
      else (None, services))"
  by pat_completeness auto
termination
  by (relation "measure (\<lambda>(adv_data, i, services). length adv_data - i)") auto

declare services_loop.simps [simp del]

text \<open>\<^verbatim>\<open>except: pass\<close> and \<^verbatim>\<open>return services\<close>: the list as it is, whatever happened.\<close>

definition decode_services :: "byte list \<Rightarrow> string list" where
  "decode_services adv_data = snd (services_loop adv_data 0 [])"

function manufacturer_loop :: "byte list \<Rightarrow> nat \<Rightarrow> exn + byte list option" where
  "manufacturer_loop adv_data i =
     (if i < length adv_data then
        (let len = unat (adv_data ! i) in
         if len = 0 then Inr None
         else
           (case getitem adv_data (i + 1) of
              Inl e \<Rightarrow> Inl e
            | Inr ad_type \<Rightarrow>
                if ad_type = 0xFF then Inr (Some (slice adv_data (i + 2) (i + 1 + len)))
                else manufacturer_loop adv_data (i + 1 + len)))
      else Inr None)"
  by pat_completeness auto
termination
  by (relation "measure (\<lambda>(adv_data, i). length adv_data - i)") auto

declare manufacturer_loop.simps [simp del]

definition decode_manufacturer :: "byte list \<Rightarrow> byte list option" where
  "decode_manufacturer adv_data =
     (case manufacturer_loop adv_data 0 of Inl e \<Rightarrow> None | Inr r \<Rightarrow> r)"

text \<open>
  The three \<^verbatim>\<open>while\<close> loops once more, with a bound on the number of turns: the result
  is \<open>None\<close> when the bound is reached before the loop has ended.
\<close>

fun name_loop_fuel :: "nat \<Rightarrow> byte list \<Rightarrow> nat \<Rightarrow> (exn + string option) option" where
  "name_loop_fuel 0 adv_data i = None"
| "name_loop_fuel (Suc fuel) adv_data i =
     (if i < length adv_data then
        (let len = unat (adv_data ! i) in
         if len = 0 then Some (Inr None)
         else
           (case getitem adv_data (i + 1) of
              Inl e \<Rightarrow> Some (Inl e)
            | Inr ad_type \<Rightarrow>
                if ad_type = 0x09 then
                  (case decode_utf8 (slice adv_data (i + 2) (i + 1 + len)) of
                     Inl e \<Rightarrow> Some (Inl e) | Inr s \<Rightarrow> Some (Inr (Some s)))
                else if ad_type = 0x08 then
                  (case decode_utf8 (slice adv_data (i + 2) (i + 1 + len)) of
                     Inl e \<Rightarrow> Some (Inl e) | Inr s \<Rightarrow> Some (Inr (Some s)))
                else name_loop_fuel fuel adv_data (i + 1 + len)))
      else Some (Inr None))"

fun services_loop_fuel ::
  "nat \<Rightarrow> byte list \<Rightarrow> nat \<Rightarrow> string list \<Rightarrow> (exn option \<times> string list) option" where
  "services_loop_fuel 0 adv_data i services = None"
| "services_loop_fuel (Suc fuel) adv_data i services =
     (if i < length adv_data then
        (let len = unat (adv_data ! i) in
         if len = 0 then Some (None, services)
         else
           (case getitem adv_data (i + 1) of
              Inl e \<Rightarrow> Some (Some e, services)
            | Inr ad_type \<Rightarrow>
                if ad_type = 0x02 \<or> ad_type = 0x03 then
                  (case uuid16_for adv_data (py_range (i + 2) (i + 1 + len) 2) services of
                     (Some e, services') \<Rightarrow> Some (Some e, services')
                   | (None, services') \<Rightarrow> services_loop_fuel fuel adv_data (i + 1 + len) services')
                else if ad_type = 0x06 \<or> ad_type = 0x07 then
                  (case uuid128_for adv_data (py_range (i + 2) (i + 1 + len) 16) services of
                     (Some e, services') \<Rightarrow> Some (Some e, services')
                   | (None, services') \<Rightarrow> services_loop_fuel fuel adv_data (i + 1 + len) services')
                else services_loop_fuel fuel adv_data (i + 1 + len) services))
      else Some (None, services))"

fun manufacturer_loop_fuel :: "nat \<Rightarrow> byte list \<Rightarrow> nat \<Rightarrow> (exn + byte list option) option" where
  "manufacturer_loop_fuel 0 adv_data i = None"
| "manufacturer_loop_fuel (Suc fuel) adv_data i =
     (if i < length adv_data then
        (let len = unat (adv_data ! i) in
         if len = 0 then Some (Inr None)
         else
           (case getitem adv_data (i + 1) of
              Inl e \<Rightarrow> Some (Inl e)
            | Inr ad_type \<Rightarrow>
                if ad_type = 0xFF then Some (Inr (Some (slice adv_data (i + 2) (i + 1 + len))))
                else manufacturer_loop_fuel fuel adv_data (i + 1 + len)))
      else Some (Inr None))"

section \<open>The device registry and the event handler\<close>

text \<open>\<^verbatim>\<open>'{:02X}'.format(b)\<close>: upper-case digits, padded with zeros to two characters.\<close>

definition format_02X :: "nat \<Rightarrow> string" where
  "format_02X n = replicate (2 - length (hex_upper n)) CHR ''0'' @ hex_upper n"

definition mac_of :: "byte list \<Rightarrow> string" where
  "mac_of addr = join '':'' (map (\<lambda>b. format_02X (unat b)) addr)"

text \<open>The value stored for a device, a \<^verbatim>\<open>dict\<close> with seven fixed keys.\<close>

record device =
  name :: string
  rssi :: int
  addr_type :: string
  connectable :: bool
  services :: "string list"
  manufacturer_data :: "byte list option"
  adv_type :: int

text \<open>
  A \<^verbatim>\<open>dict\<close> is represented by the list of its items.  \<open>dict_setitem\<close> is
  \<^verbatim>\<open>d[k] = v\<close>: the value of a key that is present is replaced in place, a new key goes
  to the end of the list.  The list records the order of insertion; it is not the order in
  which the interpreter yields the items of the \<^verbatim>\<open>dict\<close>.
\<close>

type_synonym ('k, 'v) dict = "('k \<times> 'v) list"

definition dict_contains :: "'k \<Rightarrow> ('k, 'v) dict \<Rightarrow> bool" where
  "dict_contains k d = (k \<in> fst ` set d)"

definition dict_get :: "('k, 'v) dict \<Rightarrow> 'k \<Rightarrow> 'v option" where
  "dict_get d k = map_of d k"

fun dict_setitem :: "'k \<Rightarrow> 'v \<Rightarrow> ('k, 'v) dict \<Rightarrow> ('k, 'v) dict" where
  "dict_setitem k v [] = [(k, v)]"
| "dict_setitem k v ((k', v') # d) =
     (if k' = k then (k, v) # d else (k', v') # dict_setitem k v d)"

text \<open>
  What the program does to the outside, in the order in which it does it.  The text of a
  \<^verbatim>\<open>print\<close> is kept as a message with its arguments.
\<close>

datatype message =
    Banner int
  | Scanning
  | Star
  | Strong string string int
  | Scan_timeout
  | Scan_complete nat
  | Scan_error exn

datatype effect =
    Led_on
  | Led_off
  | Ble_active bool
  | Ble_irq
  | Gap_scan "(int \<times> int \<times> int) option"
  | Sleep_ms int
  | Print message

text \<open>
  The scanner object: \<open>led\<close> says whether \<^verbatim>\<open>self.led\<close> is a pin (and not \<^verbatim>\<open>None\<close>).
\<close>

record scanner =
  devices_found :: "(string, device) dict"
  scan_complete :: bool
  led :: bool
  trace :: "effect list"

definition emit :: "effect \<Rightarrow> scanner \<Rightarrow> scanner" where
  "emit e s = s\<lparr>trace := trace s @ [e]\<rparr>"

text \<open>The data of a scan result: \<^verbatim>\<open>(addr_type, addr, adv_type, rssi, adv_data)\<close>.\<close>

type_synonym report = "int \<times> byte list \<times> int \<times> int \<times> byte list"

text \<open>\<^verbatim>\<open>x or "Unknown"\<close> for an optional string: \<^verbatim>\<open>None\<close> and \<^verbatim>\<open>""\<close> are false.\<close>

definition or_unknown :: "string option \<Rightarrow> string" where
  "or_unknown x = (case x of None \<Rightarrow> ''Unknown'' | Some n \<Rightarrow> if n = [] then ''Unknown'' else n)"

definition irq :: "int \<Rightarrow> report \<Rightarrow> scanner \<Rightarrow> scanner" where
  "irq event data s =
     (if event = 5 then
        (case data of (addr_type', addr, adv_type', rssi', adv_data) \<Rightarrow>
           let mac_addr = mac_of addr in
           if \<not> dict_contains mac_addr (devices_found s) then
             let name' = or_unknown (decode_name adv_data);
                 services' = decode_services adv_data;
                 manufacturer_data' = decode_manufacturer adv_data;
                 addr_type_str = (if addr_type' = 0 then ''Public'' else ''Random'');
                 s1 = s\<lparr>devices_found := dict_setitem mac_addr
                        \<lparr>name = name', rssi = rssi', addr_type = addr_type_str,
                         connectable = (adv_type' = 0 \<or> adv_type' = 1),
                         services = services', manufacturer_data = manufacturer_data',
                         adv_type = adv_type'\<rparr> (devices_found s)\<rparr>;
                 s2 = emit (Print Star) s1
             in if rssi' > -60 then emit (Print (Strong name' mac_addr rssi')) s2 else s2
           else s)
      else if event = 6 then s\<lparr>scan_complete := True\<rparr>
      else s)"

text \<open>The events that the driver hands to the handler, one after the other.\<close>

fun deliver :: "(int \<times> report) list \<Rightarrow> scanner \<Rightarrow> scanner" where
  "deliver [] s = s"
| "deliver ((event, data) # evs) s = deliver evs (irq event data s)"

section \<open>The scan session\<close>






text \<open>\<^verbatim>\<open>try: ... except: pass\<close> around one call: whatever the call raises is dropped.\<close>

definition except_pass :: "exn option \<Rightarrow> exn option" where
  "except_pass r = (case r of Some e \<Rightarrow> None | None \<Rightarrow> None)"



section \<open>Reporting\<close>

text \<open>\<^verbatim>\<open>name_display\<close> of \<^verbatim>\<open>print_summary\<close>.\<close>

definition name_display :: "device \<Rightarrow> string" where
  "name_display info = (if name info \<noteq> ''Unknown'' then name info else ''Unnamed'')"

section \<open>Well-formed advertising data\<close>

text \<open>
  A record of the advertising data is a type and a value; on the wire it is the length
  byte (type and value counted), the type and the value.  A well-formed buffer is a
  sequence of records, ended by the end of the buffer or by a length byte 0.
\<close>

type_synonym ad_record = "byte \<times> byte list"

definition encode_record :: "ad_record \<Rightarrow> byte list" where
  "encode_record r = of_nat (1 + length (snd r)) # fst r # snd r"

definition encode_records :: "ad_record list \<Rightarrow> byte list" where
  "encode_records rs = concat (map encode_record rs)"

text \<open>
  The value fits the length byte, a list of 16-bit identifiers has an even number of
  bytes and a list of 128-bit identifiers a multiple of 16.
\<close>

definition record_ok :: "ad_record \<Rightarrow> bool" where
  "record_ok r =
     (length (snd r) \<le> 254 \<and>
      (fst r = 0x02 \<or> fst r = 0x03 \<longrightarrow> even (length (snd r))) \<and>
      (fst r = 0x06 \<or> fst r = 0x07 \<longrightarrow> 16 dvd length (snd r)))"

definition terminated :: "byte list \<Rightarrow> bool" where
  "terminated tail = (case tail of [] \<Rightarrow> True | b # bs \<Rightarrow> b = 0)"

text \<open>The identifiers of a record, as the specification words them.\<close>

definition le16 :: "byte \<Rightarrow> byte \<Rightarrow> nat" where
  "le16 b0 b1 = unat b0 + 256 * unat b1"

definition hex4_upper :: "nat \<Rightarrow> string" where
  "hex4_upper n =
     [hex_digit_upper (n div 4096 mod 16), hex_digit_upper (n div 256 mod 16),
      hex_digit_upper (n div 16 mod 16), hex_digit_upper (n mod 16)]"

fun uuids16 :: "byte list \<Rightarrow> string list" where
  "uuids16 (b0 # b1 # bs) = (''0x'' @ hex4_upper (le16 b0 b1)) # uuids16 bs"
| "uuids16 [b0] = []"
| "uuids16 [] = []"

text \<open>
  What a record adds to the services when the walk passes it: the identifiers of a 16-bit
  list.
\<close>

definition record_services :: "ad_record \<Rightarrow> string list" where
  "record_services r = (if fst r = 0x02 \<or> fst r = 0x03 then uuids16 (snd r) else [])"

text \<open>
  A 128-bit list that holds an identifier.  The walk of the service decoder ends at the
  first such record, so that the services of a sequence of records are those of the
  records before it.
\<close>

definition holds_uuid128 :: "ad_record \<Rightarrow> bool" where
  "holds_uuid128 r = ((fst r = 0x06 \<or> fst r = 0x07) \<and> snd r \<noteq> [])"

definition walk_services :: "ad_record list \<Rightarrow> string list" where
  "walk_services rs = concat (map record_services (takeWhile (\<lambda>r. \<not> holds_uuid128 r) rs))"

definition is_name :: "ad_record \<Rightarrow> bool" where
  "is_name r = (fst r = 0x09 \<or> fst r = 0x08)"

definition is_manufacturer :: "ad_record \<Rightarrow> bool" where
  "is_manufacturer r = (fst r = 0xFF)"

text \<open>The text of a name value: absent when the value does not pass the check.\<close>

definition name_text :: "byte list \<Rightarrow> string option" where
  "name_text v = (case decode_utf8 v of Inl e \<Rightarrow> None | Inr t \<Rightarrow> Some t)"

text \<open>What the name decoder's \<^verbatim>\<open>try\<close> block does with the value of a name record.\<close>

definition name_result :: "byte list \<Rightarrow> exn + string option" where
  "name_result v = (case decode_utf8 v of Inl e \<Rightarrow> Inl e | Inr s \<Rightarrow> Inr (Some s))"

text \<open>
  Well-formed UTF-8 as the Unicode standard defines it: no overlong form, no surrogate,
  nothing above U+10FFFF.  The program does not compute it; it is what valid UTF-8 means
  outside the interpreter.
\<close>

fun utf8_well_formed :: "byte list \<Rightarrow> bool" where
  "utf8_well_formed [] = True"
| "utf8_well_formed (b # bs) =
     (if b < 0x80 then utf8_well_formed bs
      else if 0xC2 \<le> b \<and> b \<le> 0xDF then
        (case bs of c1 # r \<Rightarrow> cont c1 \<and> utf8_well_formed r | _ \<Rightarrow> False)
      else if 0xE0 \<le> b \<and> b \<le> 0xEF then
        (case bs of c1 # c2 # r \<Rightarrow>
           (if b = 0xE0 then 0xA0 \<le> c1 \<and> c1 \<le> 0xBF
            else if b = 0xED then 0x80 \<le> c1 \<and> c1 \<le> 0x9F
            else cont c1) \<and> cont c2 \<and> utf8_well_formed r
         | _ \<Rightarrow> False)
      else if 0xF0 \<le> b \<and> b \<le> 0xF4 then
        (case bs of c1 # c2 # c3 # r \<Rightarrow>
           (if b = 0xF0 then 0x90 \<le> c1 \<and> c1 \<le> 0xBF
            else if b = 0xF4 then 0x80 \<le> c1 \<and> c1 \<le> 0x8F
            else cont c1) \<and> cont c2 \<and> cont c3 \<and> utf8_well_formed r
         | _ \<Rightarrow> False)
      else False)"

section \<open>Evaluation\<close>

lemmas decoder_eval =
  decode_name_def name_loop.simps getitem_def slice_def decode_utf8_def chr_of_byte_def
  char_of_def bit_0 bit_Suc decode_services_def services_loop.simps py_range.simps
  unpack_H_def format_04X_def hex_upper.simps hex_digit_upper_def hex_digit_lower_def
  hex_def uuid_str_def step_slice_reversed_def decode_manufacturer_def manufacturer_loop.simps cont_def

section \<open>The worked example of the specification\<close>

text \<open>
  C1 (as amended).  In the 14-byte buffer of the specification the name record declares
  the length 8, so its value is the seven bytes that follow the type: the five letters and
  the two bytes \<open>0x02, 0x03\<close>.  The walk then continues at index 12, where it finds a record
  of declared length 10 and type \<open>0x18\<close>.  The decoders return the name
  \<open>Test1\\x02\\x03\<close>, no service and no manufacturer data.  With the length bytes \<open>0x06\<close>
  (name) and \<open>0x03\<close> (16-bit list) the buffer decodes to the name \<open>Test1\<close>, the service
  \<open>0x180A\<close> and no manufacturer data.
\<close>

theorem worked_example_as_decoded:
  "decode_name [0x02, 0x01, 0x06, 0x08, 0x09, 0x54, 0x65, 0x73, 0x74, 0x31, 0x02, 0x03, 0x0A, 0x18]
     = Some (''Test1'' @ [CHR 0x02, CHR 0x03]) \<and>
   decode_services [0x02, 0x01, 0x06, 0x08, 0x09, 0x54, 0x65, 0x73, 0x74, 0x31, 0x02, 0x03, 0x0A, 0x18]
     = [] \<and>
   decode_manufacturer [0x02, 0x01, 0x06, 0x08, 0x09, 0x54, 0x65, 0x73, 0x74, 0x31, 0x02, 0x03, 0x0A, 0x18]
     = None \<and>
   decode_name [0x02, 0x01, 0x06, 0x06, 0x09, 0x54, 0x65, 0x73, 0x74, 0x31, 0x03, 0x03, 0x0A, 0x18]
     = Some ''Test1'' \<and>
   decode_services [0x02, 0x01, 0x06, 0x06, 0x09, 0x54, 0x65, 0x73, 0x74, 0x31, 0x03, 0x03, 0x0A, 0x18]
     = [''0x180A''] \<and>
   decode_manufacturer [0x02, 0x01, 0x06, 0x06, 0x09, 0x54, 0x65, 0x73, 0x74, 0x31, 0x03, 0x03, 0x0A, 0x18]
     = None"
  by (simp add: decoder_eval)

text \<open>
  C1 (as stated) fails: the buffer of the specification does not decode to the name
  \<open>Test1\<close> with the service \<open>0x180A\<close>.
\<close>

theorem worked_example_counterexample:
  "\<not> (decode_name [0x02, 0x01, 0x06, 0x08, 0x09, 0x54, 0x65, 0x73, 0x74, 0x31, 0x02, 0x03, 0x0A, 0x18]
        = Some ''Test1'' \<and>
      decode_services [0x02, 0x01, 0x06, 0x08, 0x09, 0x54, 0x65, 0x73, 0x74, 0x31, 0x02, 0x03, 0x0A, 0x18]
        = [''0x180A''] \<and>
      decode_manufacturer [0x02, 0x01, 0x06, 0x08, 0x09, 0x54, 0x65, 0x73, 0x74, 0x31, 0x02, 0x03, 0x0A, 0x18]
        = None)"
  by (simp add: decoder_eval)

section \<open>Reading a buffer from an index\<close>

lemma nth_drop_Cons: "drop i xs = y # ys \<Longrightarrow> i < length xs \<and> xs ! i = y"
  by (metis drop_all list.distinct(1) not_le nth_via_drop)

lemma getitem_drop: "drop i xs = y # ys \<Longrightarrow> getitem xs i = Inr y"
  using nth_drop_Cons [of i xs y ys] by (simp add: getitem_def)

lemma drop_drop_Cons: "drop i xs = y # ys \<Longrightarrow> drop (Suc i) xs = ys"
  by (metis drop_Suc tl_drop list.sel(3))

lemma drop_length_ge: "drop i xs = ys \<Longrightarrow> length xs = i + length ys \<or> (ys = [] \<and> length xs \<le> i)"
  by (cases "i \<le> length xs") auto

lemma unat_length_byte:
  "length v \<le> 254 \<Longrightarrow> unat (of_nat (1 + length v) :: byte) = 1 + length v"
  unfolding unat_of_nat by simp

lemma py_range_Cons:
  "a < b \<Longrightarrow> 0 < step \<Longrightarrow> py_range a b step = a # py_range (a + step) b step"
  by (subst py_range.simps) simp

lemma py_range_Nil: "b \<le> a \<Longrightarrow> py_range a b step = []"
  by (subst py_range.simps) simp

lemma py_range_ge: "j \<in> set (py_range a b step) \<Longrightarrow> a \<le> j"
proof (induction a b step rule: py_range.induct)
  case (1 a b step)
  show ?case
  proof (cases "a < b \<and> 0 < step")
    case True
    then have "py_range a b step = a # py_range (a + step) b step"
      by (simp add: py_range_Cons)
    with "1.prems" have "j = a \<or> j \<in> set (py_range (a + step) b step)" by simp
    then show ?thesis using "1.IH" True by auto
  next
    case False
    then have "py_range a b step = []" by (subst py_range.simps) simp
    with "1.prems" show ?thesis by simp
  qed
qed

section \<open>Sixteen-bit identifiers\<close>

lemma hex_upper_small: "n < 16 \<Longrightarrow> hex_upper n = [hex_digit_upper n]"
  by (subst hex_upper.simps) simp

lemma hex_upper_big:
  "16 \<le> n \<Longrightarrow> hex_upper n = hex_upper (n div 16) @ [hex_digit_upper (n mod 16)]"
  by (subst hex_upper.simps) simp

lemma format_04X_hex4:
  assumes "n < 65536"
  shows "format_04X n = hex4_upper n"
proof -
  define q1 q2 q3 where "q1 = n div 16" and "q2 = q1 div 16" and "q3 = q2 div 16"
  have e: "n div 16 = q1" "n div 256 = q2" "n div 4096 = q3"
    unfolding q1_def q2_def q3_def by (simp_all add: div_mult2_eq[symmetric])
  have q3: "q3 < 16" using assms e(3) by (simp add: less_mult_imp_div_less)
  have h: "hex4_upper n = [hex_digit_upper q3, hex_digit_upper (q2 mod 16),
       hex_digit_upper (q1 mod 16), hex_digit_upper (n mod 16)]"
    using q3 by (simp add: hex4_upper_def e)
  have s0: "hex_upper n = (if n < 16 then [] else hex_upper q1) @ [hex_digit_upper (n mod 16)]"
    by (cases "n < 16") (simp_all add: hex_upper_small hex_upper_big[of n] q1_def)
  have s1: "hex_upper q1 = (if q1 < 16 then [] else hex_upper q2) @ [hex_digit_upper (q1 mod 16)]"
    by (cases "q1 < 16") (simp_all add: hex_upper_small hex_upper_big[of q1] q2_def)
  have s2: "hex_upper q2 = (if q2 < 16 then [] else hex_upper q3) @ [hex_digit_upper (q2 mod 16)]"
    by (cases "q2 < 16") (simp_all add: hex_upper_small hex_upper_big[of q2] q3_def)
  have s3: "hex_upper q3 = [hex_digit_upper q3]"
    using q3 by (simp add: hex_upper_small)
  have z1: "n < 16 \<Longrightarrow> q1 = 0" by (simp add: q1_def)
  have z2: "q1 < 16 \<Longrightarrow> q2 = 0" by (simp add: q2_def)
  have z3: "q2 < 16 \<Longrightarrow> q3 = 0" by (simp add: q3_def)
  have r: "replicate 3 c = [c, c, c]" "replicate 2 c = [c, c]" for c :: char
    by (simp_all add: numeral_3_eq_3 numeral_2_eq_2)
  have d0: "hex_digit_upper 0 = CHR ''0''" by (simp add: hex_digit_upper_def)
  consider "n < 16" | "\<not> n < 16" "q1 < 16" | "\<not> n < 16" "\<not> q1 < 16" "q2 < 16"
    | "\<not> n < 16" "\<not> q1 < 16" "\<not> q2 < 16" by blast
  then show ?thesis
  proof cases
    case 1
    then have "q1 = 0" "q2 = 0" "q3 = 0" using z1 z2 z3 by simp_all
    then show ?thesis unfolding h format_04X_def s0 using 1 by (simp add: r d0)
  next
    case 2
    then have "q2 = 0" "q3 = 0" using z2 z3 by simp_all
    then show ?thesis unfolding h format_04X_def s0 s1 using 2 by (simp add: r d0)
  next
    case 3
    then have "q3 = 0" using z3 by simp_all
    then show ?thesis unfolding h format_04X_def s0 s1 s2 using 3 by (simp add: r d0)
  next
    case 4
    then show ?thesis unfolding h format_04X_def s0 s1 s2 s3 by simp
  qed
qed

lemma le16_bound: "le16 b0 b1 < 65536"
proof -
  have "unat b0 < 2 ^ 8" "unat b1 < 2 ^ 8"
    using unsigned_less [of b0] unsigned_less [of b1] by simp_all
  then show ?thesis by (simp add: le16_def)
qed

lemma uuid16_for_skip:
  "\<forall>j \<in> set js. length adv \<le> j + 1 \<Longrightarrow> uuid16_for adv js acc = (None, acc)"
  by (induction js) auto

lemma uuid16_for_past_end:
  assumes "length adv \<le> j + 1"
  shows "uuid16_for adv (py_range j b 2) acc = (None, acc)"
proof -
  have "\<forall>k \<in> set (py_range j b 2). length adv \<le> k + 1"
    using assms py_range_ge by fastforce
  then show ?thesis by (rule uuid16_for_skip)
qed

lemma uuid16_for_value:
  assumes "drop j adv = v @ rest"
    and "rest = [] \<or> (even (length v) \<and> b = j + length v)"
    and "j + length v \<le> b"
  shows "uuid16_for adv (py_range j b 2) acc = (None, acc @ uuids16 v)"
  using assms
proof (induction v arbitrary: j acc rule: uuids16.induct)
  case (1 b0 b1 bs)
  from "1.prems"(1) have d: "drop j adv = b0 # b1 # (bs @ rest)" by simp
  have len: "j + 1 < length adv"
    using nth_drop_Cons[OF d] nth_drop_Cons[OF drop_drop_Cons[OF d]] by simp
  have sl: "slice adv j (j + 2) = [b0, b1]"
    using d by (simp add: slice_def)
  have d2: "drop (j + 2) adv = bs @ rest"
    using drop_drop_Cons[OF drop_drop_Cons[OF d]] by simp
  have r: "py_range j b 2 = j # py_range (j + 2) b 2"
    using "1.prems"(3) by (simp add: py_range_Cons)
  have ih: "uuid16_for adv (py_range (j + 2) b 2) (acc @ [''0x'' @ format_04X (le16 b0 b1)])
      = (None, (acc @ [''0x'' @ format_04X (le16 b0 b1)]) @ uuids16 bs)"
    using "1.prems"(2,3) by (intro "1.IH"[OF d2]) auto
  show ?case using len sl r ih
    by (simp add: unpack_H_def le16_def[symmetric] format_04X_hex4[OF le16_bound])
next
  case (2 x)
  with "2.prems"(2) have rest: "rest = []" by auto
  with "2.prems"(1) have "length adv \<le> j + 1"
    using drop_length_ge [of j adv "[x]"] by auto
  then show ?case by (simp add: uuid16_for_past_end)
next
  case 3
  show ?case
  proof (cases "rest = []")
    case True
    with "3.prems"(1) have "length adv \<le> j + 1" by simp
    then show ?thesis by (simp add: uuid16_for_past_end)
  next
    case False
    with "3.prems"(2) have "b = j" by simp
    then show ?thesis by (simp add: py_range_Nil)
  qed
qed


section \<open>128-bit identifiers\<close>

text \<open>Building the text of a 128-bit identifier raises, whatever its bytes are.\<close>

lemma uuid_str_raises: "uuid_str u = Inl NotImplementedError"
  by (simp add: uuid_str_def step_slice_reversed_def)

lemma drop_eq_length: "drop i xs = ys \<Longrightarrow> length xs - i = length ys"
  by auto

lemma uuid128_for_skip:
  "\<forall>j \<in> set js. length adv \<le> j + 15 \<Longrightarrow> uuid128_for adv js acc = (None, acc)"
  by (induction js) auto

lemma uuid128_for_past_end:
  assumes "length adv \<le> j + 15"
  shows "uuid128_for adv (py_range j b 16) acc = (None, acc)"
proof -
  have "length adv \<le> k + 15" if "k \<in> set (py_range j b 16)" for k
    using assms py_range_ge [OF that] by linarith
  then show ?thesis by (intro uuid128_for_skip) blast
qed

lemma uuid128_for_raises:
  assumes "j + 15 < length adv" and "j < b"
  shows "uuid128_for adv (py_range j b 16) acc = (Some NotImplementedError, acc)"
  using assms by (simp add: py_range_Cons uuid_str_raises)

lemma uuid128_for_value:
  assumes "drop j adv = v @ rest"
    and "rest = [] \<or> (16 dvd length v \<and> b = j + length v)"
    and "j + length v \<le> b"
  shows "uuid128_for adv (py_range j b 16) acc =
         (if 16 \<le> length v then (Some NotImplementedError, acc) else (None, acc))"
proof (cases "16 \<le> length v")
  case True
  have "length adv - j = length v + length rest"
    using drop_eq_length [OF assms(1)] by simp
  then have "j + 15 < length adv" using True by linarith
  moreover have "j < b" using assms(3) True by linarith
  ultimately show ?thesis using True by (simp add: uuid128_for_raises)
next
  case False
  show ?thesis
  proof (cases "rest = []")
    case True
    have "length adv - j = length v"
      using drop_eq_length [OF assms(1)] True by simp
    then have "length adv \<le> j + 15" using False by linarith
    then show ?thesis using False by (simp add: uuid128_for_past_end)
  next
    case nonempty: False
    with assms(2) have "16 dvd length v" "b = j + length v" by simp_all
    moreover from \<open>16 dvd length v\<close> False have "length v = 0"
      using dvd_imp_le [of 16 "length v"] by auto
    ultimately show ?thesis using False by (simp add: py_range_Nil)
  qed
qed

section \<open>The service decoder on records\<close>

lemma length_encode_record: "length (encode_record r) = 2 + length (snd r)"
  by (simp add: encode_record_def)

lemma services_loop_end: "length adv \<le> i \<Longrightarrow> services_loop adv i acc = (None, acc)"
  by (subst services_loop.simps) simp

lemma services_loop_zero: "drop i adv = 0 # xs \<Longrightarrow> services_loop adv i acc = (None, acc)"
  using nth_drop_Cons [of i adv 0 xs] by (subst services_loop.simps) simp

lemma services_loop_dangling:
  assumes "drop i adv = [n]" and "n \<noteq> 0"
  shows "services_loop adv i acc = (Some IndexError, acc)"
proof -
  have "i < length adv" "adv ! i = n" using nth_drop_Cons [OF assms(1)] by simp_all
  moreover have "length adv = i + 1" using drop_length_ge [OF assms(1)] by auto
  moreover have "unat n \<noteq> 0" using assms(2) by (simp add: unat_eq_0)
  ultimately show ?thesis
    by (subst services_loop.simps) (simp add: getitem_def)
qed

text \<open>One record whose value lies in the buffer up to \<open>rest\<close>, complete or cut short.\<close>

lemma services_loop_step:
  assumes d: "drop i adv = n # t # v @ rest"
    and n: "unat n \<noteq> 0"
    and c: "(rest = [] \<and> 1 + length v \<le> unat n) \<or>
            (unat n = 1 + length v \<and> (t = 0x02 \<or> t = 0x03 \<longrightarrow> even (length v)) \<and>
             (t = 0x06 \<or> t = 0x07 \<longrightarrow> 16 dvd length v))"
  shows "services_loop adv i acc =
         (if (t = 0x06 \<or> t = 0x07) \<and> 16 \<le> length v then (Some NotImplementedError, acc)
          else services_loop adv (i + 1 + unat n) (acc @ record_services (t, v)))"
proof -
  have i: "i < length adv" "adv ! i = n" using nth_drop_Cons [OF d] by simp_all
  have g: "getitem adv (i + 1) = Inr t"
    using getitem_drop [OF drop_drop_Cons [OF d]] by simp
  have dv: "drop (i + 2) adv = v @ rest"
    using drop_drop_Cons [OF drop_drop_Cons [OF d]] by simp
  have b: "i + 2 + length v \<le> i + 1 + unat n" using c by auto
  have c16: "rest = [] \<or> (even (length v) \<and> i + 1 + unat n = i + 2 + length v)"
    if "t = 0x02 \<or> t = 0x03" using c that by auto
  have c128: "rest = [] \<or> (16 dvd length v \<and> i + 1 + unat n = i + 2 + length v)"
    if "t = 0x06 \<or> t = 0x07" using c that by auto
  show ?thesis
  proof (cases "t = 0x02 \<or> t = 0x03")
    case True
    have "uuid16_for adv (py_range (i + 2) (i + 1 + unat n) 2) acc = (None, acc @ uuids16 v)"
      by (rule uuid16_for_value [OF dv c16 [OF True] b])
    moreover from True have "\<not> (t = 0x06 \<or> t = 0x07)" by auto
    ultimately show ?thesis using i n g True
      by (subst services_loop.simps) (simp add: record_services_def)
  next
    case not16: False
    show ?thesis
    proof (cases "t = 0x06 \<or> t = 0x07")
      case True
      have "uuid128_for adv (py_range (i + 2) (i + 1 + unat n) 16) acc =
          (if 16 \<le> length v then (Some NotImplementedError, acc) else (None, acc))"
        by (rule uuid128_for_value [OF dv c128 [OF True] b])
      then show ?thesis using i n g True not16
        by (subst services_loop.simps) (simp add: record_services_def)
    next
      case False
      then show ?thesis using i n g not16
        by (subst services_loop.simps) (simp add: record_services_def)
    qed
  qed
qed

lemma holds_uuid128_ok:
  assumes "record_ok (t, v)"
  shows "holds_uuid128 (t, v) \<longleftrightarrow> (t = 0x06 \<or> t = 0x07) \<and> 16 \<le> length v"
proof (cases "t = 0x06 \<or> t = 0x07")
  case True
  with assms have "16 dvd length v" by (simp add: record_ok_def)
  then have "v \<noteq> [] \<longleftrightarrow> 16 \<le> length v"
    using dvd_imp_le [of 16 "length v"] by auto
  with True show ?thesis by (simp add: holds_uuid128_def)
next
  case False
  then show ?thesis by (simp add: holds_uuid128_def)
qed

lemma walk_services_Cons:
  "walk_services (r # rs) =
     (if holds_uuid128 r then [] else record_services r @ walk_services rs)"
  by (simp add: walk_services_def)

lemma walk_services_none:
  "\<not> (\<exists>r \<in> set rs. holds_uuid128 r) \<Longrightarrow> walk_services rs = concat (map record_services rs)"
  by (induction rs) (simp_all add: walk_services_def)

lemma services_loop_records:
  assumes "drop i adv = encode_records rs @ tail"
    and "\<forall>r \<in> set rs. record_ok r"
  shows "services_loop adv i acc =
         (if \<exists>r \<in> set rs. holds_uuid128 r
          then (Some NotImplementedError, acc @ walk_services rs)
          else services_loop adv (i + length (encode_records rs)) (acc @ walk_services rs))"
  using assms
proof (induction rs arbitrary: i acc)
  case Nil
  then show ?case by (simp add: encode_records_def walk_services_def)
next
  case (Cons r rs)
  obtain t v where r: "r = (t, v)" by (cases r)
  from Cons.prems(2) have ok: "record_ok (t, v)" by (simp add: r)
  then have lv: "length v \<le> 254" by (simp add: record_ok_def)
  have n: "unat (of_nat (1 + length v) :: byte) = 1 + length v"
    by (rule unat_length_byte [OF lv])
  have d: "drop i adv = of_nat (1 + length v) # t # v @ (encode_records rs @ tail)"
    using Cons.prems(1) by (simp add: r encode_records_def encode_record_def)
  have step: "services_loop adv i acc =
      (if (t = 0x06 \<or> t = 0x07) \<and> 16 \<le> length v then (Some NotImplementedError, acc)
       else services_loop adv (i + 1 + unat (of_nat (1 + length v) :: byte))
              (acc @ record_services (t, v)))"
    using ok by (intro services_loop_step [OF d]) (simp_all only: n record_ok_def fst_conv snd_conv, simp_all)
  have h: "holds_uuid128 (t, v) \<longleftrightarrow> (t = 0x06 \<or> t = 0x07) \<and> 16 \<le> length v"
    by (rule holds_uuid128_ok [OF ok])
  have d': "drop (i + 2 + length v) adv = encode_records rs @ tail"
  proof -
    have "drop (i + 2 + length v) adv = drop (2 + length v) (drop i adv)"
      by (simp add: add.commute add.left_commute)
    then show ?thesis unfolding d by simp
  qed
  have ih: "services_loop adv (i + 2 + length v) (acc @ record_services (t, v)) =
      (if \<exists>r \<in> set rs. holds_uuid128 r
       then (Some NotImplementedError, (acc @ record_services (t, v)) @ walk_services rs)
       else services_loop adv (i + 2 + length v + length (encode_records rs))
              ((acc @ record_services (t, v)) @ walk_services rs))"
    using Cons.prems(2) by (intro Cons.IH [OF d']) simp
  have l: "length (encode_records (r # rs)) = 2 + length v + length (encode_records rs)"
    by (simp add: encode_records_def encode_record_def r)
  show ?case
  proof (cases "holds_uuid128 (t, v)")
    case True
    then show ?thesis using step h by (simp add: r walk_services_Cons)
  next
    case False
    with step h have e: "services_loop adv i acc =
        services_loop adv (i + 2 + length v) (acc @ record_services (t, v))"
      by (simp only: n if_False) (simp add: add.assoc)
    have l': "i + length (encode_records (r # rs)) = i + 2 + length v + length (encode_records rs)"
      using l by simp
    have w: "walk_services (r # rs) = record_services (t, v) @ walk_services rs"
      "(\<exists>x \<in> set (r # rs). holds_uuid128 x) \<longleftrightarrow> (\<exists>x \<in> set rs. holds_uuid128 x)"
      using False by (simp_all add: r walk_services_Cons)
    show ?thesis unfolding e ih l' w by simp
  qed
qed

section \<open>The name decoder on records\<close>

lemma name_loop_end: "length adv \<le> i \<Longrightarrow> name_loop adv i = Inr None"
  by (subst name_loop.simps) simp

lemma name_loop_zero: "drop i adv = 0 # xs \<Longrightarrow> name_loop adv i = Inr None"
  using nth_drop_Cons [of i adv 0 xs] by (subst name_loop.simps) simp

lemma name_loop_dangling:
  assumes "drop i adv = [n]" and "n \<noteq> 0"
  shows "name_loop adv i = Inl IndexError"
proof -
  have "i < length adv" "adv ! i = n" using nth_drop_Cons [OF assms(1)] by simp_all
  moreover have "length adv = i + 1"
    using drop_eq_length [OF assms(1)] nth_drop_Cons [OF assms(1)] by simp
  moreover have "unat n \<noteq> 0" using assms(2) by (simp add: unat_eq_0)
  ultimately show ?thesis
    by (subst name_loop.simps) (simp add: getitem_def)
qed

lemma name_loop_step:
  assumes d: "drop i adv = n # t # v @ rest"
    and n: "unat n \<noteq> 0"
    and c: "(rest = [] \<and> 1 + length v \<le> unat n) \<or> unat n = 1 + length v"
  shows "name_loop adv i =
         (if is_name (t, v) then name_result v else name_loop adv (i + 1 + unat n))"
proof -
  have i: "i < length adv" "adv ! i = n" using nth_drop_Cons [OF d] by simp_all
  have g: "getitem adv (i + 1) = Inr t"
    using getitem_drop [OF drop_drop_Cons [OF d]] by simp
  have dv: "drop (i + 2) adv = v @ rest"
    using drop_drop_Cons [OF drop_drop_Cons [OF d]] by simp
  have "slice adv (i + 2) (i + 1 + unat n) = take (i + 1 + unat n - (i + 2)) (v @ rest)"
    unfolding slice_def dv by (rule refl)
  also have "\<dots> = v" using c by auto
  finally have sl: "slice adv (i + 2) (i + 1 + unat n) = v" .
  show ?thesis
    using i n g sl
    by (subst name_loop.simps) (auto simp: is_name_def name_result_def)
qed

lemma name_loop_records:
  assumes "drop i adv = encode_records rs @ tail"
    and "\<forall>r \<in> set rs. length (snd r) \<le> 254"
  shows "name_loop adv i =
         (case find is_name rs of
            Some r \<Rightarrow> name_result (snd r)
          | None \<Rightarrow> name_loop adv (i + length (encode_records rs)))"
  using assms
proof (induction rs arbitrary: i)
  case Nil
  then show ?case by (simp add: encode_records_def)
next
  case (Cons r rs)
  obtain t v where r: "r = (t, v)" by (cases r)
  from Cons.prems(2) have lv: "length v \<le> 254" by (simp add: r)
  have n: "unat (of_nat (1 + length v) :: byte) = 1 + length v"
    by (rule unat_length_byte [OF lv])
  have d: "drop i adv = of_nat (1 + length v) # t # v @ (encode_records rs @ tail)"
    using Cons.prems(1) by (simp add: r encode_records_def encode_record_def)
  have step: "name_loop adv i =
      (if is_name (t, v) then name_result v
       else name_loop adv (i + 1 + unat (of_nat (1 + length v) :: byte)))"
    by (rule name_loop_step [OF d]) (simp_all only: n, simp_all)
  have d': "drop (i + 2 + length v) adv = encode_records rs @ tail"
  proof -
    have "drop (i + 2 + length v) adv = drop (2 + length v) (drop i adv)"
      by (simp add: add.commute add.left_commute)
    then show ?thesis unfolding d by simp
  qed
  have ih: "name_loop adv (i + 2 + length v) =
      (case find is_name rs of
         Some r \<Rightarrow> name_result (snd r)
       | None \<Rightarrow> name_loop adv (i + 2 + length v + length (encode_records rs)))"
    using Cons.prems(2) by (intro Cons.IH [OF d']) simp
  have l: "length (encode_records (r # rs)) = 2 + length v + length (encode_records rs)"
    by (simp add: encode_records_def encode_record_def r)
  show ?case
    unfolding step n l using ih by (simp add: r add.assoc split: option.split)
qed

section \<open>The manufacturer decoder on records\<close>

lemma manufacturer_loop_end: "length adv \<le> i \<Longrightarrow> manufacturer_loop adv i = Inr None"
  by (subst manufacturer_loop.simps) simp

lemma manufacturer_loop_zero: "drop i adv = 0 # xs \<Longrightarrow> manufacturer_loop adv i = Inr None"
  using nth_drop_Cons [of i adv 0 xs] by (subst manufacturer_loop.simps) simp

lemma manufacturer_loop_dangling:
  assumes "drop i adv = [n]" and "n \<noteq> 0"
  shows "manufacturer_loop adv i = Inl IndexError"
proof -
  have "i < length adv" "adv ! i = n" using nth_drop_Cons [OF assms(1)] by simp_all
  moreover have "length adv = i + 1"
    using drop_eq_length [OF assms(1)] nth_drop_Cons [OF assms(1)] by simp
  moreover have "unat n \<noteq> 0" using assms(2) by (simp add: unat_eq_0)
  ultimately show ?thesis
    by (subst manufacturer_loop.simps) (simp add: getitem_def)
qed

lemma manufacturer_loop_step:
  assumes d: "drop i adv = n # t # v @ rest"
    and n: "unat n \<noteq> 0"
    and c: "(rest = [] \<and> 1 + length v \<le> unat n) \<or> unat n = 1 + length v"
  shows "manufacturer_loop adv i =
         (if is_manufacturer (t, v) then Inr (Some v)
          else manufacturer_loop adv (i + 1 + unat n))"
proof -
  have i: "i < length adv" "adv ! i = n" using nth_drop_Cons [OF d] by simp_all
  have g: "getitem adv (i + 1) = Inr t"
    using getitem_drop [OF drop_drop_Cons [OF d]] by simp
  have dv: "drop (i + 2) adv = v @ rest"
    using drop_drop_Cons [OF drop_drop_Cons [OF d]] by simp
  have "slice adv (i + 2) (i + 1 + unat n) = take (i + 1 + unat n - (i + 2)) (v @ rest)"
    unfolding slice_def dv by (rule refl)
  also have "\<dots> = v" using c by auto
  finally have sl: "slice adv (i + 2) (i + 1 + unat n) = v" .
  show ?thesis
    using i n g sl
    by (subst manufacturer_loop.simps) (auto simp: is_manufacturer_def)
qed

lemma manufacturer_loop_records:
  assumes "drop i adv = encode_records rs @ tail"
    and "\<forall>r \<in> set rs. length (snd r) \<le> 254"
  shows "manufacturer_loop adv i =
         (case find is_manufacturer rs of
            Some r \<Rightarrow> Inr (Some (snd r))
          | None \<Rightarrow> manufacturer_loop adv (i + length (encode_records rs)))"
  using assms
proof (induction rs arbitrary: i)
  case Nil
  then show ?case by (simp add: encode_records_def)
next
  case (Cons r rs)
  obtain t v where r: "r = (t, v)" by (cases r)
  from Cons.prems(2) have lv: "length v \<le> 254" by (simp add: r)
  have n: "unat (of_nat (1 + length v) :: byte) = 1 + length v"
    by (rule unat_length_byte [OF lv])
  have d: "drop i adv = of_nat (1 + length v) # t # v @ (encode_records rs @ tail)"
    using Cons.prems(1) by (simp add: r encode_records_def encode_record_def)
  have step: "manufacturer_loop adv i =
      (if is_manufacturer (t, v) then Inr (Some v)
       else manufacturer_loop adv (i + 1 + unat (of_nat (1 + length v) :: byte)))"
    by (rule manufacturer_loop_step [OF d]) (simp_all only: n, simp_all)
  have d': "drop (i + 2 + length v) adv = encode_records rs @ tail"
  proof -
    have "drop (i + 2 + length v) adv = drop (2 + length v) (drop i adv)"
      by (simp add: add.commute add.left_commute)
    then show ?thesis unfolding d by simp
  qed
  have ih: "manufacturer_loop adv (i + 2 + length v) =
      (case find is_manufacturer rs of
         Some r \<Rightarrow> Inr (Some (snd r))
       | None \<Rightarrow> manufacturer_loop adv (i + 2 + length v + length (encode_records rs)))"
    using Cons.prems(2) by (intro Cons.IH [OF d']) simp
  have l: "length (encode_records (r # rs)) = 2 + length v + length (encode_records rs)"
    by (simp add: encode_records_def encode_record_def r)
  show ?case
    unfolding step n l using ih by (simp add: r add.assoc split: option.split)
qed

section \<open>Service identifiers of a well-formed buffer\<close>

lemma services_loop_tail:
  assumes "drop i adv = tail" and "terminated tail"
  shows "services_loop adv i acc = (None, acc)"
proof (cases tail)
  case Nil
  with assms(1) have "length adv \<le> i" by simp
  then show ?thesis by (rule services_loop_end)
next
  case (Cons b bs)
  with assms(2) have "b = 0" by (simp add: terminated_def)
  with assms(1) Cons show ?thesis by (simp add: services_loop_zero)
qed

text \<open>
  On a well-formed buffer the service decoder returns the 16-bit identifiers of the
  records before the first 128-bit list that holds an identifier.
\<close>

lemma decode_services_records:
  assumes "\<forall>r \<in> set rs. record_ok r" and "terminated tail"
  shows "decode_services (encode_records rs @ tail) = walk_services rs"
proof -
  let ?adv = "encode_records rs @ tail"
  have "services_loop ?adv 0 [] =
      (if \<exists>r \<in> set rs. holds_uuid128 r
       then (Some NotImplementedError, [] @ walk_services rs)
       else services_loop ?adv (0 + length (encode_records rs)) ([] @ walk_services rs))"
    by (rule services_loop_records [OF _ assms(1)]) simp
  moreover have "services_loop ?adv (0 + length (encode_records rs)) ([] @ walk_services rs)
      = (None, [] @ walk_services rs)"
    by (rule services_loop_tail [OF _ assms(2)]) simp
  ultimately show ?thesis by (simp add: decode_services_def)
qed

text \<open>
  C6.  The claim holds for the 16-bit lists and fails for the 128-bit lists.  In the buffer
  below a complete list with the 16-bit identifier \<open>0x180A\<close> is followed by a complete list
  with one 128-bit identifier and by an incomplete list with the 16-bit identifier
  \<open>0xABCD\<close>.  Building the text of the 128-bit identifier raises
  \<^verbatim>\<open>NotImplementedError\<close> at \<^verbatim>\<open>uuid_bytes[12:16][::-1]\<close>; the handler of the decoder
  catches it, and the decoder returns the list as it is at that point: the 128-bit
  identifier and every identifier after it are missing.
\<close>

theorem services_stop_at_uuid128:
  "decode_services
     [0x03, 0x03, 0x0A, 0x18,
      0x11, 0x07, 0x00, 0x01, 0x02, 0x03, 0x04, 0x05, 0x06, 0x07,
                  0x08, 0x09, 0x0A, 0x0B, 0x0C, 0x0D, 0x0E, 0x0F,
      0x03, 0x02, 0xCD, 0xAB]
   = [''0x180A'']"
  by (simp add: decoder_eval)

section \<open>What follows the last complete record\<close>

lemma name_loop_tail:
  assumes "drop i adv = tail" and "terminated tail"
  shows "name_loop adv i = Inr None"
proof (cases tail)
  case Nil
  with assms(1) have "length adv \<le> i" by simp
  then show ?thesis by (rule name_loop_end)
next
  case (Cons b bs)
  with assms(2) have "b = 0" by (simp add: terminated_def)
  with assms(1) Cons show ?thesis by (simp add: name_loop_zero)
qed

lemma manufacturer_loop_tail:
  assumes "drop i adv = tail" and "terminated tail"
  shows "manufacturer_loop adv i = Inr None"
proof (cases tail)
  case Nil
  with assms(1) have "length adv \<le> i" by simp
  then show ?thesis by (rule manufacturer_loop_end)
next
  case (Cons b bs)
  with assms(2) have "b = 0" by (simp add: terminated_def)
  with assms(1) Cons show ?thesis by (simp add: manufacturer_loop_zero)
qed

lemma records_ok_lengths:
  "\<forall>r \<in> set rs. record_ok r \<Longrightarrow> \<forall>r \<in> set rs. length (snd r) \<le> 254"
  by (simp add: record_ok_def)

text \<open>The three loops on complete records followed by any rest of the buffer.\<close>

lemma services_loop_prefix:
  assumes "\<forall>r \<in> set rs. record_ok r"
  shows "services_loop (encode_records rs @ tail) 0 [] =
         (if \<exists>r \<in> set rs. holds_uuid128 r
          then (Some NotImplementedError, walk_services rs)
          else services_loop (encode_records rs @ tail) (length (encode_records rs))
                 (walk_services rs))"
  using services_loop_records [of 0 "encode_records rs @ tail" rs tail "[]", OF _ assms]
  by simp

lemma name_loop_prefix:
  assumes "\<forall>r \<in> set rs. record_ok r"
  shows "name_loop (encode_records rs @ tail) 0 =
         (case find is_name rs of
            Some r \<Rightarrow> name_result (snd r)
          | None \<Rightarrow> name_loop (encode_records rs @ tail) (length (encode_records rs)))"
  using name_loop_records [of 0 "encode_records rs @ tail" rs tail,
      OF _ records_ok_lengths [OF assms]]
  by (simp cong: option.case_cong)

lemma manufacturer_loop_prefix:
  assumes "\<forall>r \<in> set rs. record_ok r"
  shows "manufacturer_loop (encode_records rs @ tail) 0 =
         (case find is_manufacturer rs of
            Some r \<Rightarrow> Inr (Some (snd r))
          | None \<Rightarrow> manufacturer_loop (encode_records rs @ tail) (length (encode_records rs)))"
  using manufacturer_loop_records [of 0 "encode_records rs @ tail" rs tail,
      OF _ records_ok_lengths [OF assms]]
  by (simp cong: option.case_cong)

lemma drop_prefix: "drop (length xs) (xs @ ys) = ys"
  by simp

text \<open>A length byte that is the last byte of the buffer.\<close>

lemma services_loop_prefix_dangling:
  assumes "\<forall>r \<in> set rs. record_ok r" and "n \<noteq> 0"
  shows "services_loop (encode_records rs @ [n]) 0 [] =
         (Some (if \<exists>r \<in> set rs. holds_uuid128 r then NotImplementedError else IndexError),
          walk_services rs)"
  unfolding services_loop_prefix [OF assms(1)]
  by (simp add: services_loop_dangling [OF drop_prefix assms(2)])

lemma name_loop_prefix_dangling:
  assumes "\<forall>r \<in> set rs. record_ok r" and "n \<noteq> 0"
  shows "name_loop (encode_records rs @ [n]) 0 =
         (case find is_name rs of Some r \<Rightarrow> name_result (snd r) | None \<Rightarrow> Inl IndexError)"
  unfolding name_loop_prefix [OF assms(1)]
  by (simp add: name_loop_dangling [OF drop_prefix assms(2)] cong: option.case_cong)

lemma manufacturer_loop_prefix_dangling:
  assumes "\<forall>r \<in> set rs. record_ok r" and "n \<noteq> 0"
  shows "manufacturer_loop (encode_records rs @ [n]) 0 =
         (case find is_manufacturer rs of Some r \<Rightarrow> Inr (Some (snd r)) | None \<Rightarrow> Inl IndexError)"
  unfolding manufacturer_loop_prefix [OF assms(1)]
  by (simp add: manufacturer_loop_dangling [OF drop_prefix assms(2)] cong: option.case_cong)

text \<open>A record whose type is in the buffer and whose value is cut short by its end.\<close>

lemma services_loop_prefix_truncated:
  assumes "\<forall>r \<in> set rs. record_ok r" and "1 + length v < unat n"
  shows "snd (services_loop (encode_records rs @ n # t # v) 0 []) =
         walk_services rs @
           (if \<exists>r \<in> set rs. holds_uuid128 r then [] else record_services (t, v))"
proof -
  let ?adv = "encode_records rs @ n # t # v"
  let ?i = "length (encode_records rs)"
  have d: "drop ?i ?adv = n # t # v @ []" by simp
  have n: "unat n \<noteq> 0" using assms(2) by simp
  have e: "length ?adv \<le> ?i + 1 + unat n" using assms(2) by simp
  have s: "services_loop ?adv ?i (walk_services rs) =
      (if (t = 0x06 \<or> t = 0x07) \<and> 16 \<le> length v then (Some NotImplementedError, walk_services rs)
       else services_loop ?adv (?i + 1 + unat n) (walk_services rs @ record_services (t, v)))"
    using assms(2) by (intro services_loop_step [OF d n]) simp
  have f: "services_loop ?adv (?i + 1 + unat n) (walk_services rs @ record_services (t, v))
      = (None, walk_services rs @ record_services (t, v))"
    by (rule services_loop_end [OF e])
  have z: "record_services (t, v) = []" if "t = 0x06 \<or> t = 0x07"
    using that by (auto simp: record_services_def)
  show ?thesis
    unfolding services_loop_prefix [OF assms(1)] s f using z by auto
qed

lemma name_loop_prefix_truncated:
  assumes "\<forall>r \<in> set rs. record_ok r" and "1 + length v < unat n"
  shows "name_loop (encode_records rs @ n # t # v) 0 =
         (case find is_name rs of
            Some r \<Rightarrow> name_result (snd r)
          | None \<Rightarrow> if is_name (t, v) then name_result v else Inr None)"
proof -
  let ?adv = "encode_records rs @ n # t # v"
  let ?i = "length (encode_records rs)"
  have d: "drop ?i ?adv = n # t # v @ []" by simp
  have n: "unat n \<noteq> 0" using assms(2) by simp
  have e: "length ?adv \<le> ?i + 1 + unat n" using assms(2) by simp
  have "name_loop ?adv ?i =
      (if is_name (t, v) then name_result v else name_loop ?adv (?i + 1 + unat n))"
    using assms(2) by (intro name_loop_step [OF d n]) simp
  also have "\<dots> = (if is_name (t, v) then name_result v else Inr None)"
    by (simp only: name_loop_end [OF e])
  finally show ?thesis unfolding name_loop_prefix [OF assms(1)]
    by (simp cong: option.case_cong)
qed

lemma manufacturer_loop_prefix_truncated:
  assumes "\<forall>r \<in> set rs. record_ok r" and "1 + length v < unat n"
  shows "manufacturer_loop (encode_records rs @ n # t # v) 0 =
         (case find is_manufacturer rs of
            Some r \<Rightarrow> Inr (Some (snd r))
          | None \<Rightarrow> if is_manufacturer (t, v) then Inr (Some v) else Inr None)"
proof -
  let ?adv = "encode_records rs @ n # t # v"
  let ?i = "length (encode_records rs)"
  have d: "drop ?i ?adv = n # t # v @ []" by simp
  have n: "unat n \<noteq> 0" using assms(2) by simp
  have e: "length ?adv \<le> ?i + 1 + unat n" using assms(2) by simp
  have "manufacturer_loop ?adv ?i =
      (if is_manufacturer (t, v) then Inr (Some v) else manufacturer_loop ?adv (?i + 1 + unat n))"
    using assms(2) by (intro manufacturer_loop_step [OF d n]) simp
  also have "\<dots> = (if is_manufacturer (t, v) then Inr (Some v) else Inr None)"
    by (simp only: manufacturer_loop_end [OF e])
  finally show ?thesis unfolding manufacturer_loop_prefix [OF assms(1)]
    by (simp cong: option.case_cong)
qed

text \<open>The results of the name decoder, from what its loop does.\<close>

lemma name_result_text:
  "(case name_result v of Inl e \<Rightarrow> None | Inr r \<Rightarrow> r) = name_text v"
  by (simp add: name_result_def name_text_def split: sum.split)

text \<open>Every returned payload and every decoded name is a part of the buffer.\<close>

lemma sublist_slice: "sublist (slice xs a b) xs"
proof -
  have "sublist (take (b - a) (drop a xs)) (drop a xs)" by (rule sublist_take)
  moreover have "sublist (drop a xs) xs" by (rule sublist_drop)
  ultimately show ?thesis unfolding slice_def by (rule sublist_order.order_trans)
qed

lemma manufacturer_loop_sublist:
  "manufacturer_loop adv i = Inr (Some p) \<Longrightarrow> sublist p adv"
proof (induction adv i rule: manufacturer_loop.induct)
  case (1 adv i)
  from "1.prems" show ?case
    by (subst (asm) manufacturer_loop.simps)
       (auto simp: Let_def sublist_slice getitem_def split: if_splits intro: "1.IH")
qed

lemma name_loop_sublist:
  "name_loop adv i = Inr (Some s) \<Longrightarrow> \<exists>p. sublist p adv \<and> decode_utf8 p = Inr s"
proof (induction adv i rule: name_loop.induct)
  case (1 adv i)
  from "1.prems" show ?case
    by (subst (asm) name_loop.simps)
       (auto simp: Let_def getitem_def split: if_splits sum.splits
          intro: "1.IH" exI [of _ "slice adv (i + 2) (i + 1 + unat (adv ! i))"] sublist_slice)
qed

section \<open>Termination of the walks\<close>

text \<open>
  Every turn of a loop moves the index forward, so that a loop ends within one turn for
  each byte of the buffer that is still ahead, and one more.
\<close>

lemma name_loop_fuel_enough:
  "length adv - i < fuel \<Longrightarrow> name_loop_fuel fuel adv i = Some (name_loop adv i)"
proof (induction adv i arbitrary: fuel rule: name_loop.induct)
  case (1 adv i)
  from "1.prems" obtain k where f: "fuel = Suc k" by (cases fuel) auto
  have m: "length adv - (i + 1 + unat (adv ! i)) < k" if "i < length adv"
    using that "1.prems" f by linarith
  have ih: "name_loop_fuel k adv (i + 1 + unat (adv ! i)) =
      Some (name_loop adv (i + 1 + unat (adv ! i)))"
    if "i < length adv" "unat (adv ! i) \<noteq> 0" "getitem adv (i + 1) = Inr t" "t \<noteq> 0x09" "t \<noteq> 0x08"
    for t
    using that m by (intro "1.IH") auto
  show ?case
    unfolding f using ih
    by (subst name_loop.simps) (auto simp: Let_def split: sum.splits)
qed

lemma manufacturer_loop_fuel_enough:
  "length adv - i < fuel \<Longrightarrow>
     manufacturer_loop_fuel fuel adv i = Some (manufacturer_loop adv i)"
proof (induction adv i arbitrary: fuel rule: manufacturer_loop.induct)
  case (1 adv i)
  from "1.prems" obtain k where f: "fuel = Suc k" by (cases fuel) auto
  have m: "length adv - (i + 1 + unat (adv ! i)) < k" if "i < length adv"
    using that "1.prems" f by linarith
  have ih: "manufacturer_loop_fuel k adv (i + 1 + unat (adv ! i)) =
      Some (manufacturer_loop adv (i + 1 + unat (adv ! i)))"
    if "i < length adv" "unat (adv ! i) \<noteq> 0" "getitem adv (i + 1) = Inr t" "t \<noteq> 0xFF"
    for t
    using that m by (intro "1.IH") auto
  show ?case
    unfolding f using ih
    by (subst manufacturer_loop.simps) (auto simp: Let_def split: sum.splits)
qed

lemma services_loop_fuel_enough:
  "length adv - i < fuel \<Longrightarrow>
     services_loop_fuel fuel adv i acc = Some (services_loop adv i acc)"
proof (induction adv i acc arbitrary: fuel rule: services_loop.induct)
  case (1 adv i acc)
  from "1.prems" obtain k where f: "fuel = Suc k" by (cases fuel) auto
  let ?len = "unat (adv ! i)"
  let ?r16 = "uuid16_for adv (py_range (i + 2) (i + 1 + ?len) 2) acc"
  let ?r128 = "uuid128_for adv (py_range (i + 2) (i + 1 + ?len) 16) acc"
  have m: "length adv - (i + 1 + ?len) < k" if "i < length adv"
    using that "1.prems" f by linarith
  show ?case
  proof (cases "i < length adv \<and> ?len \<noteq> 0")
    case False
    then show ?thesis unfolding f by (subst services_loop.simps) (auto simp: Let_def)
  next
    case True
    show ?thesis
    proof (cases "getitem adv (i + 1)")
      case (Inl e)
      then show ?thesis using True unfolding f
        by (subst services_loop.simps) (simp add: Let_def)
    next
      case (Inr t)
      consider "t = 0x02 \<or> t = 0x03" | "\<not> (t = 0x02 \<or> t = 0x03)" "t = 0x06 \<or> t = 0x07"
        | "\<not> (t = 0x02 \<or> t = 0x03)" "\<not> (t = 0x06 \<or> t = 0x07)" by blast
      then show ?thesis
      proof cases
        case 1
        obtain e acc' where r: "?r16 = (e, acc')" by (cases ?r16)
        show ?thesis
        proof (cases e)
          case None
          have "services_loop_fuel k adv (i + 1 + ?len) acc' =
              Some (services_loop adv (i + 1 + ?len) acc')"
            using True Inr 1 r None m by (intro "1.IH"(1)) auto
          then show ?thesis using True Inr 1 r None unfolding f
            by (subst services_loop.simps) (simp add: Let_def)
        next
          case (Some x)
          then show ?thesis using True Inr 1 r unfolding f
            by (subst services_loop.simps) (simp add: Let_def)
        qed
      next
        case 2
        obtain e acc' where r: "?r128 = (e, acc')" by (cases ?r128)
        show ?thesis
        proof (cases e)
          case None
          have "services_loop_fuel k adv (i + 1 + ?len) acc' =
              Some (services_loop adv (i + 1 + ?len) acc')"
            using True Inr 2 r None m by (intro "1.IH"(2)) auto
          then show ?thesis using True Inr 2 r None unfolding f
            by (subst services_loop.simps) (simp add: Let_def)
        next
          case (Some x)
          then show ?thesis using True Inr 2 r unfolding f
            by (subst services_loop.simps) (simp add: Let_def)
        qed
      next
        case 3
        have "services_loop_fuel k adv (i + 1 + ?len) acc =
            Some (services_loop adv (i + 1 + ?len) acc)"
          using True Inr 3 m by (intro "1.IH"(3)) auto
        then show ?thesis using True Inr 3 unfolding f
          by (subst services_loop.simps) (simp add: Let_def)
      qed
    qed
  qed
qed

text \<open>The service decoder only appends to its list.\<close>

lemma uuid16_for_keeps: "prefix acc (snd (uuid16_for adv js acc))"
proof (induction js arbitrary: acc)
  case Nil
  show ?case by simp
next
  case (Cons j js)
  have "prefix acc (snd (uuid16_for adv js (acc @ [x])))" for x
    using Cons.IH [of "acc @ [x]"] by (rule append_prefixD)
  then show ?case using Cons.IH [of acc] by (simp split: sum.split)
qed

lemma uuid128_for_keeps: "prefix acc (snd (uuid128_for adv js acc))"
proof (induction js arbitrary: acc)
  case Nil
  show ?case by simp
next
  case (Cons j js)
  have "prefix acc (snd (uuid128_for adv js (acc @ [x])))" for x
    using Cons.IH [of "acc @ [x]"] by (rule append_prefixD)
  then show ?case using Cons.IH [of acc] by (simp split: sum.split)
qed

lemma services_loop_keeps: "prefix acc (snd (services_loop adv i acc))"
proof (induction adv i acc rule: services_loop.induct)
  case (1 adv i acc)
  let ?len = "unat (adv ! i)"
  let ?r16 = "uuid16_for adv (py_range (i + 2) (i + 1 + ?len) 2) acc"
  let ?r128 = "uuid128_for adv (py_range (i + 2) (i + 1 + ?len) 16) acc"
  have k16: "prefix acc (snd ?r16)" by (rule uuid16_for_keeps)
  have k128: "prefix acc (snd ?r128)" by (rule uuid128_for_keeps)
  show ?case
  proof (cases "i < length adv \<and> ?len \<noteq> 0")
    case False
    then show ?thesis by (subst services_loop.simps) (auto simp: Let_def)
  next
    case True
    show ?thesis
    proof (cases "getitem adv (i + 1)")
      case (Inl e)
      then show ?thesis using True by (subst services_loop.simps) (simp add: Let_def)
    next
      case (Inr t)
      consider "t = 0x02 \<or> t = 0x03" | "\<not> (t = 0x02 \<or> t = 0x03)" "t = 0x06 \<or> t = 0x07"
        | "\<not> (t = 0x02 \<or> t = 0x03)" "\<not> (t = 0x06 \<or> t = 0x07)" by blast
      then show ?thesis
      proof cases
        case 1
        obtain e acc' where r: "?r16 = (e, acc')" by (cases ?r16)
        show ?thesis
        proof (cases e)
          case None
          have "prefix acc' (snd (services_loop adv (i + 1 + ?len) acc'))"
            using True Inr 1 r None by (intro "1.IH"(1)) auto
          with k16 r have "prefix acc (snd (services_loop adv (i + 1 + ?len) acc'))"
            by (auto intro: prefix_order.order_trans)
          then show ?thesis using True Inr 1 r None
            by (subst services_loop.simps) (simp add: Let_def)
        next
          case (Some x)
          then show ?thesis using True Inr 1 r k16
            by (subst services_loop.simps) (simp add: Let_def)
        qed
      next
        case 2
        obtain e acc' where r: "?r128 = (e, acc')" by (cases ?r128)
        show ?thesis
        proof (cases e)
          case None
          have "prefix acc' (snd (services_loop adv (i + 1 + ?len) acc'))"
            using True Inr 2 r None by (intro "1.IH"(2)) auto
          with k128 r have "prefix acc (snd (services_loop adv (i + 1 + ?len) acc'))"
            by (auto intro: prefix_order.order_trans)
          then show ?thesis using True Inr 2 r None
            by (subst services_loop.simps) (simp add: Let_def)
        next
          case (Some x)
          then show ?thesis using True Inr 2 r k128
            by (subst services_loop.simps) (simp add: Let_def)
        qed
      next
        case 3
        have "prefix acc (snd (services_loop adv (i + 1 + ?len) acc))"
          using True Inr 3 by (intro "1.IH"(3)) auto
        then show ?thesis using True Inr 3
          by (subst services_loop.simps) (simp add: Let_def)
      qed
    qed
  qed
qed

section \<open>Well-formed buffers\<close>

lemma decode_name_well_formed:
  assumes "\<forall>r \<in> set rs. record_ok r" and "terminated tail"
  shows "decode_name (encode_records rs @ tail) =
         (case find is_name rs of Some r \<Rightarrow> name_text (snd r) | None \<Rightarrow> None)"
proof -
  have "name_loop (encode_records rs @ tail) (length (encode_records rs)) = Inr None"
    by (rule name_loop_tail [OF drop_prefix assms(2)])
  then show ?thesis
    by (simp add: decode_name_def name_loop_prefix [OF assms(1)] name_result_text
        split: option.split)
qed

lemma decode_manufacturer_well_formed:
  assumes "\<forall>r \<in> set rs. record_ok r" and "terminated tail"
  shows "decode_manufacturer (encode_records rs @ tail) =
         (case find is_manufacturer rs of Some r \<Rightarrow> Some (snd r) | None \<Rightarrow> None)"
proof -
  have "manufacturer_loop (encode_records rs @ tail) (length (encode_records rs)) = Inr None"
    by (rule manufacturer_loop_tail [OF drop_prefix assms(2)])
  then show ?thesis
    by (simp add: decode_manufacturer_def manufacturer_loop_prefix [OF assms(1)]
        split: option.split)
qed

section \<open>Malformed buffers\<close>

text \<open>
  C5 (as stated) fails.  A malformed record that raises no exception is not a point where
  decoding stops: the decoders go on with the bytes that are there.  In the first buffer
  a name record of declared length 5 holds two bytes of value, and the name decoder
  returns the text of these two bytes, not \<open>None\<close>.  In the second one a manufacturer
  record of declared length 5 holds one byte of value, which the decoder returns.  In the
  third one a 16-bit list holds three bytes and is followed by a length byte that is the
  last byte of the buffer: the service decoder builds a second identifier from the third
  byte and that length byte.
\<close>

theorem decoders_recover_counterexample:
  "decode_name [0x05, 0x09, 0x54, 0x65] = Some ''Te'' \<and>
   decode_manufacturer [0x05, 0xFF, 0x4C] = Some [0x4C] \<and>
   decode_services [0x04, 0x03, 0x0A, 0x18, 0x0F, 0x05] = [''0x180A'', ''0x050F'']"
  by (simp add: decoder_eval)

text \<open>
  C5 (as amended).  For every buffer, each of the three loops ends within one turn for
  each byte of the buffer, and one more; the decoder then returns a value, because its
  handler catches whatever the loop raises.  When the loop raises, the name decoder and
  the manufacturer decoder return \<open>None\<close>, and the service decoder returns its list as it
  is at that point; the loop of the service decoder only appends to the list, so that
  nothing it has collected is lost.  When well-formed records are followed by a length
  byte that is the last byte of the buffer, the loop of the service decoder raises (at
  that byte, or before it at a 128-bit list that holds an identifier) and the decoder
  returns the 16-bit identifiers of the records before that point; the name decoder
  returns the text of the first name record, or \<open>None\<close> when there is none or when its
  value does not pass the UTF-8 check; the manufacturer decoder returns the value of the
  first manufacturer record, or \<open>None\<close> when there is none.
\<close>

theorem decoders_recover:
  "(\<exists>r. name_loop_fuel (Suc (length adv)) adv 0 = Some r \<and>
        decode_name adv = (case r of Inl e \<Rightarrow> None | Inr x \<Rightarrow> x)) \<and>
   (\<exists>e l. services_loop_fuel (Suc (length adv)) adv 0 [] = Some (e, l) \<and>
        decode_services adv = l) \<and>
   (\<exists>r. manufacturer_loop_fuel (Suc (length adv)) adv 0 = Some r \<and>
        decode_manufacturer adv = (case r of Inl e \<Rightarrow> None | Inr x \<Rightarrow> x)) \<and>
   prefix acc (snd (services_loop adv i acc)) \<and>
   ((\<forall>r \<in> set rs. record_ok r) \<and> n \<noteq> 0 \<longrightarrow>
      services_loop (encode_records rs @ [n]) 0 [] =
        (Some (if \<exists>r \<in> set rs. holds_uuid128 r then NotImplementedError else IndexError),
         walk_services rs) \<and>
      decode_services (encode_records rs @ [n]) = walk_services rs \<and>
      name_loop (encode_records rs @ [n]) 0 =
        (case find is_name rs of Some r \<Rightarrow> name_result (snd r) | None \<Rightarrow> Inl IndexError) \<and>
      decode_name (encode_records rs @ [n]) =
        (case find is_name rs of Some r \<Rightarrow> name_text (snd r) | None \<Rightarrow> None) \<and>
      manufacturer_loop (encode_records rs @ [n]) 0 =
        (case find is_manufacturer rs of Some r \<Rightarrow> Inr (Some (snd r)) | None \<Rightarrow> Inl IndexError) \<and>
      decode_manufacturer (encode_records rs @ [n]) =
        (case find is_manufacturer rs of Some r \<Rightarrow> Some (snd r) | None \<Rightarrow> None))"
proof -
  have a: "\<exists>r. name_loop_fuel (Suc (length adv)) adv 0 = Some r \<and>
        decode_name adv = (case r of Inl e \<Rightarrow> None | Inr x \<Rightarrow> x)"
  proof -
    have e: "name_loop_fuel (Suc (length adv)) adv 0 = Some (name_loop adv 0)"
      by (rule name_loop_fuel_enough) simp
    show ?thesis unfolding e decode_name_def by simp
  qed
  have b: "\<exists>e l. services_loop_fuel (Suc (length adv)) adv 0 [] = Some (e, l) \<and>
        decode_services adv = l"
  proof -
    have e: "services_loop_fuel (Suc (length adv)) adv 0 [] = Some (services_loop adv 0 [])"
      by (rule services_loop_fuel_enough) simp
    obtain x l where "services_loop adv 0 [] = (x, l)" by (cases "services_loop adv 0 []")
    then show ?thesis unfolding e decode_services_def by simp
  qed
  have c: "\<exists>r. manufacturer_loop_fuel (Suc (length adv)) adv 0 = Some r \<and>
        decode_manufacturer adv = (case r of Inl e \<Rightarrow> None | Inr x \<Rightarrow> x)"
  proof -
    have e: "manufacturer_loop_fuel (Suc (length adv)) adv 0 = Some (manufacturer_loop adv 0)"
      by (rule manufacturer_loop_fuel_enough) simp
    show ?thesis unfolding e decode_manufacturer_def by simp
  qed
  have k: "prefix acc (snd (services_loop adv i acc))"
    by (rule services_loop_keeps)
  have w: "services_loop (encode_records rs @ [n]) 0 [] =
        (Some (if \<exists>r \<in> set rs. holds_uuid128 r then NotImplementedError else IndexError),
         walk_services rs) \<and>
      decode_services (encode_records rs @ [n]) = walk_services rs \<and>
      name_loop (encode_records rs @ [n]) 0 =
        (case find is_name rs of Some r \<Rightarrow> name_result (snd r) | None \<Rightarrow> Inl IndexError) \<and>
      decode_name (encode_records rs @ [n]) =
        (case find is_name rs of Some r \<Rightarrow> name_text (snd r) | None \<Rightarrow> None) \<and>
      manufacturer_loop (encode_records rs @ [n]) 0 =
        (case find is_manufacturer rs of Some r \<Rightarrow> Inr (Some (snd r)) | None \<Rightarrow> Inl IndexError) \<and>
      decode_manufacturer (encode_records rs @ [n]) =
        (case find is_manufacturer rs of Some r \<Rightarrow> Some (snd r) | None \<Rightarrow> None)"
    if ok: "\<forall>r \<in> set rs. record_ok r" and n: "n \<noteq> 0"
  proof -
    note s = services_loop_prefix_dangling [OF ok n]
    note m = name_loop_prefix_dangling [OF ok n]
    note f = manufacturer_loop_prefix_dangling [OF ok n]
    have s': "decode_services (encode_records rs @ [n]) = walk_services rs"
      by (simp add: decode_services_def s)
    have m': "decode_name (encode_records rs @ [n]) =
        (case find is_name rs of Some r \<Rightarrow> name_text (snd r) | None \<Rightarrow> None)"
      by (simp add: decode_name_def m name_result_text split: option.split)
    have f': "decode_manufacturer (encode_records rs @ [n]) =
        (case find is_manufacturer rs of Some r \<Rightarrow> Some (snd r) | None \<Rightarrow> None)"
      by (simp add: decode_manufacturer_def f split: option.split)
    from s s' m m' f f' show ?thesis by (intro conjI)
  qed
  from a b c k w show ?thesis by blast
qed

theorem decoders_recover_witness:
  "record_ok (0x01, [0x06]) \<and> record_ok (0x03, [0x0A, 0x18]) \<and> (5 :: byte) \<noteq> 0 \<and>
   name_loop_fuel (Suc (length [0x02, 0x09, 0xFF :: byte])) [0x02, 0x09, 0xFF] 0
     = Some (Inl UnicodeError) \<and>
   decode_name [0x02, 0x09, 0xFF] = None \<and>
   services_loop (encode_records [(0x01, [0x06]), (0x03, [0x0A, 0x18])] @ [5]) 0 []
     = (Some IndexError, [''0x180A'']) \<and>
   decode_services (encode_records [(0x01, [0x06]), (0x03, [0x0A, 0x18])] @ [5]) = [''0x180A''] \<and>
   decode_name (encode_records [(0x01, [0x06]), (0x03, [0x0A, 0x18])] @ [5]) = None \<and>
   decode_manufacturer (encode_records [(0x01, [0x06]), (0x03, [0x0A, 0x18])] @ [5]) = None"
proof -
  let ?rs = "[(0x01, [0x06]), (0x03, [0x0A, 0x18])] :: ad_record list"
  let ?adv = "[0x02, 0x09, 0xFF] :: byte list"
  have ok: "\<forall>r \<in> set ?rs. record_ok r" by (simp add: record_ok_def)
  have n: "(5 :: byte) \<noteq> 0" by simp
  have h1: "name_loop_fuel (Suc (length ?adv)) ?adv 0 = Some (Inl UnicodeError)"
    by (simp add: getitem_def slice_def decode_utf8_def)
  have v: "walk_services ?rs = [''0x180A'']" "\<not> (\<exists>r \<in> set ?rs. holds_uuid128 r)"
    "find is_name ?rs = None" "find is_manufacturer ?rs = None"
    by (simp_all add: walk_services_def holds_uuid128_def record_services_def hex4_upper_def
        hex_digit_upper_def le16_def is_name_def is_manufacturer_def)
  note t = decoders_recover [where adv = ?adv and rs = ?rs and n = 5 and acc = "[]" and i = 0]
  from t h1 have d1: "decode_name ?adv = None" by auto
  from t ok n have w: "services_loop (encode_records ?rs @ [5]) 0 [] =
        (Some (if \<exists>r \<in> set ?rs. holds_uuid128 r then NotImplementedError else IndexError),
         walk_services ?rs)"
      "decode_services (encode_records ?rs @ [5]) = walk_services ?rs"
      "decode_name (encode_records ?rs @ [5]) =
        (case find is_name ?rs of Some r \<Rightarrow> name_text (snd r) | None \<Rightarrow> None)"
      "decode_manufacturer (encode_records ?rs @ [5]) =
        (case find is_manufacturer ?rs of Some r \<Rightarrow> Some (snd r) | None \<Rightarrow> None)"
    by blast+
  have k: "record_ok (0x01, [0x06])" "record_ok (0x03, [0x0A, 0x18])"
    using ok by simp_all
  have w1: "services_loop (encode_records ?rs @ [5]) 0 [] = (Some IndexError, [''0x180A''])"
    unfolding w(1) using v(1,2) by (simp only: if_False)
  have w2: "decode_services (encode_records ?rs @ [5]) = [''0x180A'']"
    unfolding w(2) by (rule v(1))
  have w3: "decode_name (encode_records ?rs @ [5]) = None"
    unfolding w(3) v(3) by simp
  have w4: "decode_manufacturer (encode_records ?rs @ [5]) = None"
    unfolding w(4) v(4) by simp
  from k n h1 d1 w1 w2 w3 w4 show ?thesis by (intro conjI)
qed

section \<open>Truncated records\<close>

text \<open>
  C2 (as stated) fails.  A record whose declared length exceeds the rest of the buffer is
  not skipped: the slice of its value is clamped to the end of the buffer and is returned
  as the name or as the manufacturer data, and the 16-bit identifiers that lie wholly in
  the buffer are appended to the services.
\<close>

theorem truncated_record_counterexample:
  "decode_name [0x08, 0x09, 0x54, 0x65] = Some ''Te'' \<and>
   decode_services [0x05, 0x03, 0x0A, 0x18] = [''0x180A''] \<and>
   decode_manufacturer [0x09, 0xFF, 0x4C, 0x00] = Some [0x4C, 0x00]"
  by (simp add: decoder_eval)

text \<open>
  C2 (as amended).  Let well-formed records (each value as long as its length byte says,
  a 16-bit list with an even number of bytes, a 128-bit list with a multiple of 16) be
  followed by a record whose declared length exceeds the bytes that remain.  No decoder
  reads outside the buffer: a returned payload is a contiguous part of the buffer and a
  returned name is the text of one.  The well-formed records alone decode to the text of
  the first name record, the value of the first manufacturer record and the 16-bit
  identifiers of the records before the first 128-bit list that holds an identifier, where
  the walk of the service decoder ends.  If only the length byte of the truncated record is
  in the buffer, the three results are the same as for the well-formed records alone.  If
  its type byte is in the buffer, the record is decoded with the part \<open>v\<close> of its value
  that lies in the buffer: the service decoder, when its walk has not ended before,
  appends the identifiers of a 16-bit list that lie wholly in \<open>v\<close>, and nothing for
  another record; the name decoder, when no well-formed record is a name record, returns
  the text of \<open>v\<close> for a name record; the manufacturer decoder, when no well-formed
  record is a manufacturer record, returns \<open>v\<close> for a manufacturer record.
\<close>

theorem truncated_record_clamped:
  assumes "\<forall>r \<in> set rs. record_ok r" and "1 + length v < unat n"
  shows "decode_services (encode_records rs) = walk_services rs \<and>
    decode_name (encode_records rs) =
      (case find is_name rs of Some r \<Rightarrow> name_text (snd r) | None \<Rightarrow> None) \<and>
    decode_manufacturer (encode_records rs) =
      (case find is_manufacturer rs of Some r \<Rightarrow> Some (snd r) | None \<Rightarrow> None) \<and>
    decode_services (encode_records rs @ [n]) = decode_services (encode_records rs) \<and>
    decode_name (encode_records rs @ [n]) = decode_name (encode_records rs) \<and>
    decode_manufacturer (encode_records rs @ [n]) = decode_manufacturer (encode_records rs) \<and>
    decode_services (encode_records rs @ n # t # v) =
      walk_services rs @
        (if \<exists>r \<in> set rs. holds_uuid128 r then [] else record_services (t, v)) \<and>
    decode_name (encode_records rs @ n # t # v) =
      (case find is_name rs of
         Some r \<Rightarrow> name_text (snd r)
       | None \<Rightarrow> if is_name (t, v) then name_text v else None) \<and>
    decode_manufacturer (encode_records rs @ n # t # v) =
      (case find is_manufacturer rs of
         Some r \<Rightarrow> Some (snd r)
       | None \<Rightarrow> if is_manufacturer (t, v) then Some v else None) \<and>
    (decode_manufacturer adv = Some p \<longrightarrow> sublist p adv) \<and>
    (decode_name adv = Some s \<longrightarrow> (\<exists>q. sublist q adv \<and> decode_utf8 q = Inr s))"
proof -
  from assms(2) have n: "n \<noteq> 0" by auto
  have t: "terminated []" by (simp add: terminated_def)
  have z1: "decode_services (encode_records rs) = walk_services rs"
    using decode_services_records [OF assms(1) t] by simp
  have z2: "decode_name (encode_records rs) =
      (case find is_name rs of Some r \<Rightarrow> name_text (snd r) | None \<Rightarrow> None)"
    using decode_name_well_formed [OF assms(1) t] by simp
  have z3: "decode_manufacturer (encode_records rs) =
      (case find is_manufacturer rs of Some r \<Rightarrow> Some (snd r) | None \<Rightarrow> None)"
    using decode_manufacturer_well_formed [OF assms(1) t] by simp
  have a1: "decode_services (encode_records rs @ [n]) = decode_services (encode_records rs)"
    unfolding z1 by (simp add: decode_services_def services_loop_prefix_dangling [OF assms(1) n])
  have a2: "decode_name (encode_records rs @ [n]) = decode_name (encode_records rs)"
    unfolding z2
    by (simp add: decode_name_def name_loop_prefix_dangling [OF assms(1) n] name_result_text
        split: option.split)
  have a3: "decode_manufacturer (encode_records rs @ [n]) = decode_manufacturer (encode_records rs)"
    unfolding z3
    by (simp add: decode_manufacturer_def manufacturer_loop_prefix_dangling [OF assms(1) n]
        split: option.split)
  have b1: "decode_services (encode_records rs @ n # t # v) =
      walk_services rs @
        (if \<exists>r \<in> set rs. holds_uuid128 r then [] else record_services (t, v))"
    unfolding decode_services_def by (rule services_loop_prefix_truncated [OF assms])
  have b2: "decode_name (encode_records rs @ n # t # v) =
      (case find is_name rs of
         Some r \<Rightarrow> name_text (snd r)
       | None \<Rightarrow> if is_name (t, v) then name_text v else None)"
    by (simp add: decode_name_def name_loop_prefix_truncated [OF assms] name_result_text
        split: option.split)
  have b3: "decode_manufacturer (encode_records rs @ n # t # v) =
      (case find is_manufacturer rs of
         Some r \<Rightarrow> Some (snd r)
       | None \<Rightarrow> if is_manufacturer (t, v) then Some v else None)"
    by (simp add: decode_manufacturer_def manufacturer_loop_prefix_truncated [OF assms]
        split: option.split)
  have c1: "decode_manufacturer adv = Some p \<longrightarrow> sublist p adv"
    using manufacturer_loop_sublist [of adv 0 p]
    by (auto simp: decode_manufacturer_def split: sum.splits)
  have c2: "decode_name adv = Some s \<longrightarrow> (\<exists>q. sublist q adv \<and> decode_utf8 q = Inr s)"
    using name_loop_sublist [of adv 0 s]
    by (auto simp: decode_name_def split: sum.splits)
  from z1 z2 z3 a1 a2 a3 b1 b2 b3 c1 c2 show ?thesis by (intro conjI)
qed

theorem truncated_record_clamped_witness:
  "record_ok (0x01, [0x06]) \<and> 1 + length [0x54, 0x65 :: byte] < unat (8 :: byte) \<and>
   decode_name (encode_records [(0x01, [0x06])] @ [0x08, 0x09, 0x54, 0x65]) = Some ''Te'' \<and>
   decode_name (encode_records [(0x01, [0x06])] @ [0x08]) = None \<and>
   decode_services (encode_records [(0x01, [0x06])] @ [0x08, 0x03, 0x0A, 0x18, 0x0F]) = [''0x180A''] \<and>
   decode_manufacturer (encode_records [(0x01, [0x06])] @ [0x08, 0xFF, 0x4C, 0x00]) = Some [0x4C, 0x00] \<and>
   sublist [0x4C, 0x00] [0x09, 0xFF, 0x4C, 0x00 :: byte] \<and>
   (\<exists>q. sublist q [0x08, 0x09, 0x54, 0x65] \<and> decode_utf8 q = Inr ''Te'')"
proof -
  let ?rs = "[(0x01, [0x06])] :: ad_record list"
  have ok: "\<forall>r \<in> set ?rs. record_ok r" by (simp add: record_ok_def)
  have l2: "1 + length [0x54, 0x65 :: byte] < unat (8 :: byte)" by simp
  have l3: "1 + length [0x0A, 0x18, 0x0F :: byte] < unat (8 :: byte)" by simp
  have l4: "1 + length [0x4C, 0x00 :: byte] < unat (8 :: byte)" by simp
  have f: "find is_name ?rs = None" "find is_manufacturer ?rs = None"
    "walk_services ?rs = []" "\<not> (\<exists>r \<in> set ?rs. holds_uuid128 r)"
    by (simp_all add: is_name_def is_manufacturer_def record_services_def walk_services_def
        holds_uuid128_def)
  have t: "name_text [0x54, 0x65] = Some ''Te''"
    by (simp add: name_text_def decode_utf8_def chr_of_byte_def char_of_def bit_0 bit_Suc)
  have u: "record_services (0x03, [0x0A, 0x18, 0x0F]) = [''0x180A'']"
    by (simp add: record_services_def hex4_upper_def hex_digit_upper_def le16_def)
  have m: "decode_manufacturer [0x09, 0xFF, 0x4C, 0x00] = Some [0x4C, 0x00]"
    by (simp add: decoder_eval)
  from truncated_record_clamped [OF ok l2, where t = "0x09"]
  have "decode_name (encode_records ?rs @ [0x08, 0x09, 0x54, 0x65]) = Some ''Te''"
    "decode_name (encode_records ?rs @ [0x08]) = None"
    using f t by (simp_all add: is_name_def)
  moreover from truncated_record_clamped [OF ok l3, where t = "0x03"]
  have "decode_services (encode_records ?rs @ [0x08, 0x03, 0x0A, 0x18, 0x0F]) = [''0x180A'']"
    using f u by simp
  moreover from truncated_record_clamped [OF ok l4, where t = "0xFF"]
  have "decode_manufacturer (encode_records ?rs @ [0x08, 0xFF, 0x4C, 0x00]) = Some [0x4C, 0x00]"
    using f by (simp add: is_manufacturer_def)
  moreover from truncated_record_clamped [OF ok l2,
      where adv = "[0x09, 0xFF, 0x4C, 0x00]" and p = "[0x4C, 0x00]"]
  have "sublist [0x4C, 0x00] [0x09, 0xFF, 0x4C, 0x00 :: byte]" using m by simp
  moreover have "decode_name [0x08, 0x09, 0x54, 0x65] = Some ''Te''"
    by (simp add: decoder_eval)
  with truncated_record_clamped [OF ok l2,
      where adv = "[0x08, 0x09, 0x54, 0x65]" and s = "''Te''"]
  have "\<exists>q. sublist q [0x08, 0x09, 0x54, 0x65] \<and> decode_utf8 q = Inr ''Te''" by simp
  ultimately show ?thesis using ok l2 by simp
qed

section \<open>The registry\<close>

lemma dict_get_setitem:
  "dict_get (dict_setitem k v d) k' = (if k' = k then Some v else dict_get d k')"
  by (induction d) (auto simp: dict_get_def)

lemma keys_setitem:
  "map fst (dict_setitem k v d) = (if dict_contains k d then map fst d else map fst d @ [k])"
  by (induction d) (force simp: dict_contains_def)+

lemma distinct_setitem:
  "distinct (map fst d) \<Longrightarrow> distinct (map fst (dict_setitem k v d))"
  by (simp add: keys_setitem dict_contains_def)

lemma dict_contains_get: "dict_contains k d \<longleftrightarrow> dict_get d k \<noteq> None"
  by (simp add: dict_contains_def dict_get_def map_of_eq_None_iff)

lemma devices_found_emit [simp]: "devices_found (emit e s) = devices_found s"
  by (simp add: emit_def)

lemma scan_complete_emit [simp]: "scan_complete (emit e s) = scan_complete s"
  by (simp add: emit_def)

lemma led_emit [simp]: "led (emit e s) = led s"
  by (simp add: emit_def)

lemma trace_emit [simp]: "trace (emit e s) = trace s @ [e]"
  by (simp add: emit_def)

text \<open>A report for an address that the registry holds changes nothing at all.\<close>

lemma irq_seen:
  "dict_contains (mac_of addr) (devices_found s) \<Longrightarrow>
     irq 5 (at, addr, adt, rs, adv) s = s"
  by (simp add: irq_def)

text \<open>A report for a new address stores the record built from this report.\<close>

lemma irq_new:
  assumes "\<not> dict_contains (mac_of addr) (devices_found s)"
  shows "devices_found (irq 5 (at, addr, adt, rs, adv) s) =
     dict_setitem (mac_of addr)
       \<lparr>name = or_unknown (decode_name adv), rssi = rs,
        addr_type = (if at = 0 then ''Public'' else ''Random''),
        connectable = (adt = 0 \<or> adt = 1), services = decode_services adv,
        manufacturer_data = decode_manufacturer adv, adv_type = adt\<rparr> (devices_found s)"
  using assms by (simp add: irq_def Let_def)

lemma irq_keeps:
  assumes "dict_get (devices_found s) k = Some r"
  shows "dict_get (devices_found (irq event data s)) k = Some r"
proof (cases "event = 5")
  case True
  obtain at addr adt rs adv where d: "data = (at, addr, adt, rs, adv)" by (cases data)
  show ?thesis
  proof (cases "dict_contains (mac_of addr) (devices_found s)")
    case True
    then show ?thesis using assms \<open>event = 5\<close> by (simp add: d irq_seen)
  next
    case False
    then have "k \<noteq> mac_of addr" using assms by (auto simp: dict_contains_get)
    then show ?thesis using assms \<open>event = 5\<close> False
      by (simp add: d irq_new dict_get_setitem)
  qed
next
  case False
  then show ?thesis using assms by (simp add: irq_def)
qed

lemma irq_distinct:
  assumes "distinct (map fst (devices_found s))"
  shows "distinct (map fst (devices_found (irq event data s)))"
proof (cases "event = 5")
  case True
  obtain at addr adt rs adv where d: "data = (at, addr, adt, rs, adv)" by (cases data)
  show ?thesis
  proof (cases "dict_contains (mac_of addr) (devices_found s)")
    case True
    then show ?thesis using assms \<open>event = 5\<close> by (simp add: d irq_seen)
  next
    case False
    then show ?thesis using assms \<open>event = 5\<close>
      by (simp add: d irq_new distinct_setitem)
  qed
next
  case False
  then show ?thesis using assms by (simp add: irq_def)
qed

lemma deliver_keeps:
  "dict_get (devices_found s) k = Some r \<Longrightarrow>
     dict_get (devices_found (deliver evs s)) k = Some r"
proof (induction evs arbitrary: s)
  case Nil
  then show ?case by simp
next
  case (Cons ev evs)
  obtain event data where ev: "ev = (event, data)" by (cases ev)
  from Cons.prems have "dict_get (devices_found (irq event data s)) k = Some r"
    by (rule irq_keeps)
  then show ?case unfolding ev by (simp add: Cons.IH)
qed

lemma deliver_distinct:
  "distinct (map fst (devices_found s)) \<Longrightarrow>
     distinct (map fst (devices_found (deliver evs s)))"
proof (induction evs arbitrary: s)
  case Nil
  then show ?case by simp
next
  case (Cons ev evs)
  obtain event data where ev: "ev = (event, data)" by (cases ev)
  from Cons.prems have "distinct (map fst (devices_found (irq event data s)))"
    by (rule irq_distinct)
  then show ?case unfolding ev by (simp add: Cons.IH)
qed

text \<open>
  C4.  Take a registry with one item for each key, as it is after \<^verbatim>\<open>clear()\<close> and after
  any events, and a report for an address that it does not hold.  The handler stores a
  record with the signal strength of this report.  Whatever events follow, the registry
  holds exactly this record for the address, it still has one item for each key, and a
  later report for the same address leaves the whole scanner as it is.
\<close>

theorem first_report_wins:
  assumes "distinct (map fst (devices_found s))"
    and "\<not> dict_contains (mac_of addr) (devices_found s)"
  shows "\<exists>r. dict_get (devices_found (irq 5 (at, addr, adt, rs, adv) s)) (mac_of addr) = Some r \<and>
      rssi r = rs \<and>
      dict_get (devices_found (deliver evs (irq 5 (at, addr, adt, rs, adv) s))) (mac_of addr)
        = Some r \<and>
      distinct (map fst (devices_found (deliver evs (irq 5 (at, addr, adt, rs, adv) s)))) \<and>
      irq 5 (at', addr, adt', rs', adv') (deliver evs (irq 5 (at, addr, adt, rs, adv) s))
        = deliver evs (irq 5 (at, addr, adt, rs, adv) s)"
proof -
  let ?s1 = "irq 5 (at, addr, adt, rs, adv) s"
  let ?r = "\<lparr>name = or_unknown (decode_name adv), rssi = rs,
        addr_type = (if at = 0 then ''Public'' else ''Random''),
        connectable = (adt = 0 \<or> adt = 1), services = decode_services adv,
        manufacturer_data = decode_manufacturer adv, adv_type = adt\<rparr>"
  have g: "dict_get (devices_found ?s1) (mac_of addr) = Some ?r"
    by (simp add: irq_new [OF assms(2)] dict_get_setitem)
  have k: "dict_get (devices_found (deliver evs ?s1)) (mac_of addr) = Some ?r"
    by (rule deliver_keeps [OF g])
  have d: "distinct (map fst (devices_found (deliver evs ?s1)))"
    by (rule deliver_distinct [OF irq_distinct [OF assms(1)]])
  have "dict_contains (mac_of addr) (devices_found (deliver evs ?s1))"
    using k by (simp add: dict_contains_get)
  then have i: "irq 5 (at', addr, adt', rs', adv') (deliver evs ?s1) = deliver evs ?s1"
    by (rule irq_seen)
  from g k d i show ?thesis by simp
qed

theorem first_report_wins_witness:
  "distinct (map fst (devices_found \<lparr>devices_found = [], scan_complete = False, led = True, trace = []\<rparr>)) \<and>
   \<not> dict_contains (mac_of [0xAA, 0xBB, 0xCC, 0x01, 0x02, 0x03])
       (devices_found \<lparr>devices_found = [], scan_complete = False, led = True, trace = []\<rparr>) \<and>
   (\<exists>r. dict_get (devices_found (deliver [(5, (0, [0xAA, 0xBB, 0xCC, 0x01, 0x02, 0x03], 0, -40, []))]
          (irq 5 (0, [0xAA, 0xBB, 0xCC, 0x01, 0x02, 0x03], 0, -55, [])
             \<lparr>devices_found = [], scan_complete = False, led = True, trace = []\<rparr>)))
         (mac_of [0xAA, 0xBB, 0xCC, 0x01, 0x02, 0x03]) = Some r \<and> rssi r = -55)"
proof -
  let ?s = "\<lparr>devices_found = [], scan_complete = False, led = True, trace = []\<rparr>"
  have h1: "distinct (map fst (devices_found ?s))" by simp
  have h2: "\<not> dict_contains (mac_of [0xAA, 0xBB, 0xCC, 0x01, 0x02, 0x03]) (devices_found ?s)"
    by (simp add: dict_contains_def)
  from first_report_wins [OF h1 h2, of 0 0 "-55" "[]"
      "[(5, (0, [0xAA, 0xBB, 0xCC, 0x01, 0x02, 0x03], 0, -40, []))]"]
  show ?thesis using h1 h2 by blast
qed

section \<open>Devices without a name\<close>

lemma or_unknown_nonempty: "or_unknown x \<noteq> []"
  by (simp add: or_unknown_def split: option.split)

text \<open>
  C10 (as stated) fails for a name that is not UTF-8.  The bytes \<open>0xC0, 0x80\<close> are an
  overlong form, which is not well-formed UTF-8, but they pass the check of the
  interpreter: the name decoder returns them as a text of two bytes, and the handler
  stores this text as the name of the device.
\<close>

theorem unnamed_device_counterexample:
  "\<not> utf8_well_formed [0xC0, 0x80] \<and>
   decode_name [0x03, 0x09, 0xC0, 0x80] = Some [CHR 0xC0, CHR 0x80] \<and>
   dict_get (devices_found (irq 5 (0, [0xAA, 0xBB, 0xCC, 0x01, 0x02, 0x03], 0, -55, [0x03, 0x09, 0xC0, 0x80])
       \<lparr>devices_found = [], scan_complete = False, led = True, trace = []\<rparr>))
     (mac_of [0xAA, 0xBB, 0xCC, 0x01, 0x02, 0x03])
   = Some \<lparr>name = [CHR 0xC0, CHR 0x80], rssi = -55, addr_type = ''Public'', connectable = True,
        services = [], manufacturer_data = None, adv_type = 0\<rparr>"
proof -
  have n: "decode_name [0x03, 0x09, 0xC0, 0x80] = Some [CHR 0xC0, CHR 0x80]"
    by (simp add: decoder_eval)
  have s: "decode_services [0x03, 0x09, 0xC0, 0x80] = []"
    by (simp add: decoder_eval)
  have m: "decode_manufacturer [0x03, 0x09, 0xC0, 0x80] = None"
    by (simp add: decoder_eval)
  have w: "\<not> utf8_well_formed [0xC0, 0x80]" by simp
  have "dict_get (devices_found (irq 5 (0, [0xAA, 0xBB, 0xCC, 0x01, 0x02, 0x03], 0, -55, [0x03, 0x09, 0xC0, 0x80])
       \<lparr>devices_found = [], scan_complete = False, led = True, trace = []\<rparr>))
     (mac_of [0xAA, 0xBB, 0xCC, 0x01, 0x02, 0x03])
   = Some \<lparr>name = [CHR 0xC0, CHR 0x80], rssi = -55, addr_type = ''Public'', connectable = True,
        services = [], manufacturer_data = None, adv_type = 0\<rparr>"
    by (simp add: irq_def dict_contains_def dict_get_def Let_def or_unknown_def emit_def n s m)
  with w n show ?thesis by (intro conjI)
qed

text \<open>
  C10 (as amended).  When the handler stores a record, its name is the decoded name, or
  the text \<open>Unknown\<close> when the decoder returns \<open>None\<close> or the empty text; it is never
  empty, and the summary shows such a device as \<open>Unnamed\<close>.  On a well-formed buffer the
  name is \<open>Unknown\<close> when no record is a name record, when the value of the first name
  record does not pass the UTF-8 check of the interpreter and when that value is empty.
  When that value passes the check and is not empty, it is stored as the name byte for
  byte, whether it is well-formed UTF-8 or not.
\<close>

theorem unnamed_device_is_unknown:
  assumes "\<not> dict_contains (mac_of addr) (devices_found s)"
  shows "\<exists>r. dict_get (devices_found (irq 5 (at, addr, adt, rs, adv) s)) (mac_of addr) = Some r \<and>
      name r = or_unknown (decode_name adv) \<and> name r \<noteq> [] \<and>
      (decode_name adv = None \<or> decode_name adv = Some [] \<longrightarrow>
         name r = ''Unknown'' \<and> name_display r = ''Unnamed'') \<and>
      ((\<forall>x \<in> set rcs. record_ok x) \<and> terminated tail \<and> adv = encode_records rcs @ tail \<and>
       (find is_name rcs = None \<or>
        (\<exists>x. find is_name rcs = Some x \<and> (\<not> utf8_check 0 (snd x) \<or> snd x = []))) \<longrightarrow>
         name r = ''Unknown'') \<and>
      (\<forall>x. (\<forall>x \<in> set rcs. record_ok x) \<and> terminated tail \<and> adv = encode_records rcs @ tail \<and>
       find is_name rcs = Some x \<and> utf8_check 0 (snd x) \<and> snd x \<noteq> [] \<longrightarrow>
         name r = map chr_of_byte (snd x))"
proof -
  let ?r = "\<lparr>name = or_unknown (decode_name adv), rssi = rs,
        addr_type = (if at = 0 then ''Public'' else ''Random''),
        connectable = (adt = 0 \<or> adt = 1), services = decode_services adv,
        manufacturer_data = decode_manufacturer adv, adv_type = adt\<rparr>"
  have g: "dict_get (devices_found (irq 5 (at, addr, adt, rs, adv) s)) (mac_of addr) = Some ?r"
    by (simp add: irq_new [OF assms] dict_get_setitem)
  have n: "name ?r = or_unknown (decode_name adv)" by simp
  have e: "name ?r \<noteq> []" by (simp add: or_unknown_nonempty)
  have u: "decode_name adv = None \<or> decode_name adv = Some [] \<longrightarrow>
      name ?r = ''Unknown'' \<and> name_display ?r = ''Unnamed''"
    by (auto simp: or_unknown_def name_display_def)
  have w: "(\<forall>x \<in> set rcs. record_ok x) \<and> terminated tail \<and> adv = encode_records rcs @ tail \<and>
       (find is_name rcs = None \<or>
        (\<exists>x. find is_name rcs = Some x \<and> (\<not> utf8_check 0 (snd x) \<or> snd x = []))) \<longrightarrow>
         name ?r = ''Unknown''"
  proof (intro impI, elim conjE)
    assume ok: "\<forall>x \<in> set rcs. record_ok x" and t: "terminated tail"
      and a: "adv = encode_records rcs @ tail"
      and c: "find is_name rcs = None \<or>
        (\<exists>x. find is_name rcs = Some x \<and> (\<not> utf8_check 0 (snd x) \<or> snd x = []))"
    have d: "decode_name adv =
        (case find is_name rcs of Some r \<Rightarrow> name_text (snd r) | None \<Rightarrow> None)"
      unfolding a by (rule decode_name_well_formed [OF ok t])
    from c have "decode_name adv = None \<or> decode_name adv = Some []"
      unfolding d by (auto simp: name_text_def decode_utf8_def)
    then show "name ?r = ''Unknown''" using u by simp
  qed
  have v: "\<forall>x. (\<forall>x \<in> set rcs. record_ok x) \<and> terminated tail \<and> adv = encode_records rcs @ tail \<and>
       find is_name rcs = Some x \<and> utf8_check 0 (snd x) \<and> snd x \<noteq> [] \<longrightarrow>
         name ?r = map chr_of_byte (snd x)"
  proof (intro allI impI, elim conjE)
    fix x
    assume ok: "\<forall>x \<in> set rcs. record_ok x" and t: "terminated tail"
      and a: "adv = encode_records rcs @ tail"
      and c: "find is_name rcs = Some x" "utf8_check 0 (snd x)" "snd x \<noteq> []"
    have d: "decode_name adv =
        (case find is_name rcs of Some r \<Rightarrow> name_text (snd r) | None \<Rightarrow> None)"
      unfolding a by (rule decode_name_well_formed [OF ok t])
    from c have "decode_name adv = Some (map chr_of_byte (snd x))"
      unfolding d by (simp add: name_text_def decode_utf8_def)
    then show "name ?r = map chr_of_byte (snd x)" using c(3) by (simp add: or_unknown_def)
  qed
  from g n e u w v show ?thesis by blast
qed

theorem unnamed_device_is_unknown_witness:
  "\<not> dict_contains (mac_of [0xAA, 0xBB, 0xCC, 0x01, 0x02, 0x03])
       (devices_found \<lparr>devices_found = [], scan_complete = False, led = True, trace = []\<rparr>) \<and>
   decode_name [0x02, 0x01, 0x06] = None \<and>
   record_ok (0x09, [0xFF]) \<and> terminated [] \<and>
   [0x02, 0x09, 0xFF] = encode_records [(0x09, [0xFF])] @ [] \<and>
   find is_name [(0x09, [0xFF])] = Some (0x09, [0xFF]) \<and> \<not> utf8_check 0 [0xFF] \<and>
   record_ok (0x09, []) \<and>
   [0x01, 0x09] = encode_records [(0x09, [])] @ [] \<and>
   find is_name [(0x09, [])] = Some (0x09, []) \<and>
   record_ok (0x09, [0xC0, 0x80]) \<and>
   [0x03, 0x09, 0xC0, 0x80] = encode_records [(0x09, [0xC0, 0x80])] @ [] \<and>
   find is_name [(0x09, [0xC0, 0x80])] = Some (0x09, [0xC0, 0x80]) \<and> utf8_check 0 [0xC0, 0x80] \<and>
   (\<exists>r. dict_get (devices_found (irq 5 (0, [0xAA, 0xBB, 0xCC, 0x01, 0x02, 0x03], 0, -55, [0x02, 0x01, 0x06])
             \<lparr>devices_found = [], scan_complete = False, led = True, trace = []\<rparr>))
         (mac_of [0xAA, 0xBB, 0xCC, 0x01, 0x02, 0x03]) = Some r \<and> name r = ''Unknown'') \<and>
   (\<exists>r. dict_get (devices_found (irq 5 (0, [0xAA, 0xBB, 0xCC, 0x01, 0x02, 0x03], 0, -55, [0x02, 0x09, 0xFF])
             \<lparr>devices_found = [], scan_complete = False, led = True, trace = []\<rparr>))
         (mac_of [0xAA, 0xBB, 0xCC, 0x01, 0x02, 0x03]) = Some r \<and> name r = ''Unknown'') \<and>
   (\<exists>r. dict_get (devices_found (irq 5 (0, [0xAA, 0xBB, 0xCC, 0x01, 0x02, 0x03], 0, -55, [0x01, 0x09])
             \<lparr>devices_found = [], scan_complete = False, led = True, trace = []\<rparr>))
         (mac_of [0xAA, 0xBB, 0xCC, 0x01, 0x02, 0x03]) = Some r \<and> name r = ''Unknown'') \<and>
   (\<exists>r. dict_get (devices_found (irq 5 (0, [0xAA, 0xBB, 0xCC, 0x01, 0x02, 0x03], 0, -55, [0x03, 0x09, 0xC0, 0x80])
             \<lparr>devices_found = [], scan_complete = False, led = True, trace = []\<rparr>))
         (mac_of [0xAA, 0xBB, 0xCC, 0x01, 0x02, 0x03]) = Some r \<and>
         name r = map chr_of_byte [0xC0, 0x80])"
proof -
  let ?s = "\<lparr>devices_found = [], scan_complete = False, led = True, trace = []\<rparr>"
  let ?a = "[0xAA, 0xBB, 0xCC, 0x01, 0x02, 0x03] :: byte list"
  have h: "\<not> dict_contains (mac_of ?a) (devices_found ?s)"
    by (simp add: dict_contains_def)
  have d1: "decode_name [0x02, 0x01, 0x06] = None" by (simp add: decoder_eval)
  have t: "terminated []" by (simp add: terminated_def)
  have w2: "\<forall>x \<in> set [(0x09, [0xFF])]. record_ok x"
    "[0x02, 0x09, 0xFF] = encode_records [(0x09, [0xFF])] @ []"
    "find is_name [(0x09, [0xFF])] = Some (0x09, [0xFF])" "\<not> utf8_check 0 [0xFF]"
    by (simp_all add: record_ok_def encode_records_def encode_record_def is_name_def)
  have w3: "\<forall>x \<in> set [(0x09, [])]. record_ok x"
    "[0x01, 0x09] = encode_records [(0x09, [])] @ []"
    "find is_name [(0x09, [])] = Some (0x09, [])"
    by (simp_all add: record_ok_def encode_records_def encode_record_def is_name_def)
  have w4: "\<forall>x \<in> set [(0x09, [0xC0, 0x80])]. record_ok x"
    "[0x03, 0x09, 0xC0, 0x80] = encode_records [(0x09, [0xC0, 0x80])] @ []"
    "find is_name [(0x09, [0xC0, 0x80])] = Some (0x09, [0xC0, 0x80])" "utf8_check 0 [0xC0, 0x80]"
    by (simp_all add: record_ok_def encode_records_def encode_record_def is_name_def cont_def)
  from unnamed_device_is_unknown [OF h, where at = 0 and adt = 0 and rs = "-55"
      and adv = "[0x02, 0x01, 0x06]" and rcs = "[]" and tail = "[]"] d1
  have r1: "\<exists>r. dict_get (devices_found (irq 5 (0, ?a, 0, -55, [0x02, 0x01, 0x06]) ?s)) (mac_of ?a)
      = Some r \<and> name r = ''Unknown''" by auto
  from unnamed_device_is_unknown [OF h, where at = 0 and adt = 0 and rs = "-55"
      and adv = "[0x02, 0x09, 0xFF]" and rcs = "[(0x09, [0xFF])]" and tail = "[]"] t w2
  have r2: "\<exists>r. dict_get (devices_found (irq 5 (0, ?a, 0, -55, [0x02, 0x09, 0xFF]) ?s)) (mac_of ?a)
      = Some r \<and> name r = ''Unknown''" by fastforce
  from unnamed_device_is_unknown [OF h, where at = 0 and adt = 0 and rs = "-55"
      and adv = "[0x01, 0x09]" and rcs = "[(0x09, [])]" and tail = "[]"] t w3
  have r3: "\<exists>r. dict_get (devices_found (irq 5 (0, ?a, 0, -55, [0x01, 0x09]) ?s)) (mac_of ?a)
      = Some r \<and> name r = ''Unknown''" by fastforce
  from unnamed_device_is_unknown [OF h, where at = 0 and adt = 0 and rs = "-55"
      and adv = "[0x03, 0x09, 0xC0, 0x80]" and rcs = "[(0x09, [0xC0, 0x80])]" and tail = "[]"]
  obtain r where r: "dict_get (devices_found (irq 5 (0, ?a, 0, -55, [0x03, 0x09, 0xC0, 0x80]) ?s)) (mac_of ?a)
      = Some r"
    and i: "\<forall>x. (\<forall>x \<in> set [(0x09, [0xC0, 0x80])]. record_ok x) \<and> terminated [] \<and>
       [0x03, 0x09, 0xC0, 0x80] = encode_records [(0x09, [0xC0, 0x80])] @ [] \<and>
       find is_name [(0x09, [0xC0, 0x80])] = Some x \<and> utf8_check 0 (snd x) \<and> snd x \<noteq> [] \<longrightarrow>
         name r = map chr_of_byte (snd x)"
    by blast
  from i [rule_format, of "(0x09, [0xC0, 0x80])"] t w4
  have "name r = map chr_of_byte [0xC0, 0x80]" by simp
  with r have r4: "\<exists>r. dict_get (devices_found (irq 5 (0, ?a, 0, -55, [0x03, 0x09, 0xC0, 0x80]) ?s)) (mac_of ?a)
      = Some r \<and> name r = map chr_of_byte [0xC0, 0x80]" by blast
  have k: "record_ok (0x09, [0xFF])" "record_ok (0x09, [])" "record_ok (0x09, [0xC0, 0x80])"
    using w2(1) w3(1) w4(1) by simp_all
  from h d1 t k w2(2-) w3(2-) w4(2-) r1 r2 r3 r4 show ?thesis by (intro conjI)
qed

section \<open>The scan session\<close>


lemma irq_led [simp]: "led (irq event data s) = led s"
  by (cases data) (simp add: irq_def Let_def)



lemma deliver_led [simp]: "led (deliver evs s) = led s"
proof (induction evs arbitrary: s)
  case Nil
  show ?case by simp
next
  case (Cons ev evs)
  obtain event data where ev: "ev = (event, data)" by (cases ev)
  show ?case unfolding ev by (simp add: Cons.IH)
qed







lemma except_pass_None [simp]: "except_pass r = None"
  by (simp add: except_pass_def split: option.split)


section \<open>Teardown\<close>




section \<open>Errors of the radio\<close>




section \<open>The timeout\<close>




end
